theory Spec2Isabelle
  imports Main "HOL-Library.Sublist"
begin

text \<open>
  A model of the reactive state container of this repository: \<open>Stateful\<close>, \<open>Atom\<close> and
  \<open>Selector\<close> with the functions \<open>atom\<close> and \<open>selector\<close>. The source holds the library
  twice; the two copies differ in names and types (\<open>addAtom\<close>, a \<open>WeakMap\<close> of registered
  atoms and generators that read atoms in one; \<open>addDep\<close>, a \<open>Set\<close> of registered
  dependencies and generators that read any cell in the other) and do the same. The
  model follows the commented copy. The React hooks
  \<open>useCoiledValue\<close> and \<open>useCoiledState\<close> are clients of the library: they subscribe a
  callback and disconnect it.

  Objects live in a heap: a cell and a function object are known by their addresses,
  and every method takes the state and returns the new one.
\<close>

section \<open>Values and strict equality\<close>

text \<open>
  The cells of the library hold arbitrary JavaScript values (the type parameter \<open>T\<close>).
  The model keeps the kinds of value the library's tests and demo store: \<open>undefined\<close>,
  numbers (integers, and \<open>NaN\<close>, the one number that is not equal to itself), strings,
  and objects. An object is a reference: \<open>VObj a fs\<close> is the object at address \<open>a\<close>
  whose fields are \<open>fs\<close>. The library never mutates an object in place (callers build a
  new object for every change), so the fields travel with the reference.
\<close>

datatype val =
    VUndef
  | VNum int
  | VNaN
  | VStr string
  | VObj nat "(string \<times> val) list"

text \<open>
  The operator \<open>!==\<close> of \<open>Stateful.update\<close> is the negation of strict equality:
  primitives are compared by value, \<open>NaN\<close> differs from everything, objects are compared
  by address only.
\<close>

fun strict_eq :: "val \<Rightarrow> val \<Rightarrow> bool" where
  "strict_eq VUndef VUndef = True"
| "strict_eq (VNum a) (VNum b) = (a = b)"
| "strict_eq (VStr a) (VStr b) = (a = b)"
| "strict_eq (VObj a _) (VObj b _) = (a = b)"
| "strict_eq _ _ = False"

text \<open>
  The operator \<open>+\<close> of the generators in the tests: numeric addition on two numbers,
  string concatenation as soon as one operand is a string or an object. Numbers are
  integers here: the sum and the decimal printing are those of JavaScript as long as the
  numbers stay below \<open>2^53\<close> in absolute value, which the examples do.
\<close>

definition digit_char :: "nat \<Rightarrow> char" where
  "digit_char d = ''0123456789'' ! d"

fun digits :: "nat \<Rightarrow> string" where
  "digits n = (if n < 10 then [digit_char n] else digits (n div 10) @ [digit_char (n mod 10)])"

fun to_string :: "val \<Rightarrow> string" where
  "to_string VUndef = ''undefined''"
| "to_string (VNum i) = (if i < 0 then CHR ''-'' # digits (nat (- i)) else digits (nat i))"
| "to_string VNaN = ''NaN''"
| "to_string (VStr s) = s"
| "to_string (VObj _ _) = ''[object Object]''"

fun is_stringy :: "val \<Rightarrow> bool" where
  "is_stringy (VStr _) = True"
| "is_stringy (VObj _ _) = True"
| "is_stringy _ = False"

fun js_add :: "val \<Rightarrow> val \<Rightarrow> val" where
  "js_add (VNum a) (VNum b) = VNum (a + b)"
| "js_add x y = (if is_stringy x \<or> is_stringy y then VStr (to_string x @ to_string y) else VNaN)"

section \<open>The heap: cells, closures, handles\<close>

text \<open>
  A \<open>SelectorGenerator\<close> is a function of the read capability \<open>get\<close>. It is modelled by
  the tree of its interactions with \<open>get\<close>: it returns a value, throws, or reads a cell and
  goes on with the value read. The generators covered read cells and compute from what
  they read; one that has effects of its own, or that creates a new object on each run,
  is not a tree of this type.
\<close>

datatype gen =
    GReturn val
  | GThrow val
  | GGet nat "val \<Rightarrow> gen"

text \<open>
  The object returned by \<open>subscribe\<close>: its \<open>disconnect\<close> method deletes the callback it
  was made for from the listeners of the cell it was made by.
\<close>

datatype Disconnect = Disconnect nat nat

text \<open>
  What a callback written by a client of the library does when it is called: it sets
  cells, subscribes and disconnects callbacks, or throws. (The type of \<open>setState\<close> admits
  atoms only; the model does not check it.)
\<close>

datatype action =
    ASetState nat val
  | ASubscribe nat nat
  | ADisconnect Disconnect
  | AThrow val

text \<open>
  Function objects. \<open>UpdateSelector this\<close> is the arrow function
  \<open>() => this.updateSelector()\<close> that \<open>addDep\<close> creates; \<open>External k\<close> is a callback of
  a client, which receives the value of the cell. The state maps the address of each
  function object that exists to its closure; a callback is known by its address.
\<close>

datatype closure =
    UpdateSelector nat
  | External "val \<Rightarrow> action list"

text \<open>
  An instance of \<open>Stateful\<close>. The field \<open>value\<close> is named \<open>cell_value\<close>; \<open>listeners\<close> is
  the \<open>Set\<close> of callbacks in insertion order, as \<open>Array.from\<close> lists it; an \<open>Atom\<close> has
  no generator, a \<open>Selector\<close> has one and its set of registered dependencies.
\<close>

record cell =
  cell_value :: val
  listeners :: "nat list"
  generate :: "gen option"
  registeredDeps :: "nat set"

text \<open>
  Observations that are not part of the program's state: each call of a listener by
  \<open>emit\<close> (numbered by the pass of \<open>emit\<close> that makes it, with the emitting cell, the
  callback and the argument), and each run of a generator.
\<close>

datatype event =
    Notified nat nat nat val
  | Generated nat

record state =
  cells :: "nat \<Rightarrow> cell"
  fns :: "nat \<rightharpoonup> closure"
  nextCell :: nat
  nextFn :: nat
  passes :: nat
  trace :: "event list"

datatype outcome = Normal | Thrown val

definition TypeError :: val where
  "TypeError = VStr ''TypeError''"

definition empty_cell :: cell where
  "empty_cell = \<lparr>cell_value = VUndef, listeners = [], generate = None, registeredDeps = {}\<rparr>"

definition init :: state where
  "init = \<lparr>cells = (\<lambda>_. empty_cell), fns = Map.empty,
            nextCell = 0, nextFn = 0, passes = 0, trace = []\<rparr>"

section \<open>Stateful\<close>

definition snapshot :: "state \<Rightarrow> nat \<Rightarrow> val" where
  "snapshot s this = cell_value (cells s this)"

definition set_add :: "nat list \<Rightarrow> nat \<Rightarrow> nat list" where
  "set_add xs x = (if x \<in> set xs then xs else xs @ [x])"

definition set_delete :: "nat list \<Rightarrow> nat \<Rightarrow> nat list" where
  "set_delete xs x = removeAll x xs"

definition set_listeners :: "state \<Rightarrow> nat \<Rightarrow> nat list \<Rightarrow> state" where
  "set_listeners s this ls = s\<lparr>cells := (cells s)(this := (cells s this)\<lparr>listeners := ls\<rparr>)\<rparr>"

definition set_value :: "state \<Rightarrow> nat \<Rightarrow> val \<Rightarrow> state" where
  "set_value s this v = s\<lparr>cells := (cells s)(this := (cells s this)\<lparr>cell_value := v\<rparr>)\<rparr>"

definition record_event :: "state \<Rightarrow> event \<Rightarrow> state" where
  "record_event s e = s\<lparr>trace := trace s @ [e]\<rparr>"

definition subscribe :: "state \<Rightarrow> nat \<Rightarrow> nat \<Rightarrow> Disconnect \<times> state" where
  "subscribe s this callback =
     (Disconnect this callback,
      set_listeners s this (set_add (listeners (cells s this)) callback))"

fun disconnect :: "state \<Rightarrow> Disconnect \<Rightarrow> state" where
  "disconnect s (Disconnect this callback) =
     set_listeners s this (set_delete (listeners (cells s this)) callback)"

section \<open>Selector: reading dependencies\<close>

definition addDep :: "state \<Rightarrow> nat \<Rightarrow> nat \<Rightarrow> val \<times> state" where
  "addDep s this dep =
     (if dep \<notin> registeredDeps (cells s this) then
        let f = nextFn s;
            s1 = s\<lparr>fns := (fns s)(f \<mapsto> UpdateSelector this), nextFn := Suc f\<rparr>;
            s2 = snd (subscribe s1 dep f);
            s3 = s2\<lparr>cells := (cells s2)(this := (cells s2 this)
                     \<lparr>registeredDeps := insert dep (registeredDeps (cells s2 this))\<rparr>)\<rparr>
        in (snapshot s3 dep, s3)
      else (snapshot s dep, s))"

primrec run_gen :: "gen \<Rightarrow> nat \<Rightarrow> state \<Rightarrow> (val + val) \<times> state" where
  "run_gen (GReturn v) = (\<lambda>this s. (Inr v, s))"
| "run_gen (GThrow e) = (\<lambda>this s. (Inl e, s))"
| "run_gen (GGet dep k) = (\<lambda>this s. case addDep s this dep of (v, s') \<Rightarrow> run_gen (k v) this s')"

section \<open>Updates and notification\<close>

text \<open>
  \<open>update\<close>, \<open>emit\<close>, the call of a listener and \<open>updateSelector\<close> call each other, and a
  callback may set the cell that is notifying it, so a cascade need not end. The first
  argument bounds the depth of nested \<open>emit\<close>s: the result is \<open>None\<close> when the cascade
  goes deeper. An exception leaves the state as it was when it was thrown: nothing in the
  library catches it or undoes what was done.

  \<open>emit\<close> takes the next pass number and loops over the listeners the cell has at that
  moment (\<open>Array.from(this.listeners)\<close>); \<open>emit_loop\<close> is the body of the loop, which reads
  \<open>this.snapshot()\<close> anew for each listener. \<open>call\<close> is the call of a function object and
  \<open>run_actions\<close> the body of a client's callback. Calling what is not a function is a
  \<open>TypeError\<close> in JavaScript: the two branches that throw it are there for addresses that
  hold no function and cells that hold no generator, which the library never reaches.
\<close>

function (sequential) update :: "nat \<Rightarrow> state \<Rightarrow> nat \<Rightarrow> val \<Rightarrow> (outcome \<times> state) option"
  and emit :: "nat \<Rightarrow> state \<Rightarrow> nat \<Rightarrow> (outcome \<times> state) option"
  and emit_loop :: "nat \<Rightarrow> nat \<Rightarrow> nat \<Rightarrow> nat list \<Rightarrow> state \<Rightarrow> (outcome \<times> state) option"
  and call :: "nat \<Rightarrow> state \<Rightarrow> nat \<Rightarrow> val \<Rightarrow> (outcome \<times> state) option"
  and updateSelector :: "nat \<Rightarrow> state \<Rightarrow> nat \<Rightarrow> (outcome \<times> state) option"
  and run_actions :: "nat \<Rightarrow> action list \<Rightarrow> state \<Rightarrow> (outcome \<times> state) option"
where
  "update n s this v =
     (if \<not> strict_eq (cell_value (cells s this)) v
      then emit n (set_value s this v) this
      else Some (Normal, s))"
| "emit 0 s this = None"
| "emit (Suc n) s this =
     emit_loop n (passes s) this (listeners (cells s this)) (s\<lparr>passes := Suc (passes s)\<rparr>)"
| "emit_loop n p this [] s = Some (Normal, s)"
| "emit_loop n p this (listener # rest) s =
     (case call n (record_event s (Notified p this listener (snapshot s this)))
                listener (snapshot s this) of
        None \<Rightarrow> None
      | Some (Thrown e, s') \<Rightarrow> Some (Thrown e, s')
      | Some (Normal, s') \<Rightarrow> emit_loop n p this rest s')"
| "call n s f v =
     (case fns s f of
        None \<Rightarrow> Some (Thrown TypeError, s)
      | Some (UpdateSelector this) \<Rightarrow> updateSelector n s this
      | Some (External k) \<Rightarrow> run_actions n (k v) s)"
| "updateSelector n s this =
     (case generate (cells s this) of
        None \<Rightarrow> Some (Thrown TypeError, s)
      | Some g \<Rightarrow>
          (case run_gen g this (record_event s (Generated this)) of
             (Inl e, s') \<Rightarrow> Some (Thrown e, s')
           | (Inr v, s') \<Rightarrow> update n s' this v))"
| "run_actions n [] s = Some (Normal, s)"
| "run_actions n (ASetState a v # rest) s =
     (case update n s a v of
        None \<Rightarrow> None
      | Some (Thrown e, s') \<Rightarrow> Some (Thrown e, s')
      | Some (Normal, s') \<Rightarrow> run_actions n rest s')"
| "run_actions n (ASubscribe c f # rest) s = run_actions n rest (snd (subscribe s c f))"
| "run_actions n (ADisconnect h # rest) s = run_actions n rest (disconnect s h)"
| "run_actions n (AThrow e # rest) s = Some (Thrown e, s)"
  by pat_completeness auto

termination
  by (relation "measures [
     case_sum (case_sum (\<lambda>(n, s, this, v). n) (case_sum (\<lambda>(n, s, this). n) (\<lambda>(n, p, this, ls, s). n)))
              (case_sum (\<lambda>(n, s, f, v). n) (case_sum (\<lambda>(n, s, this). n) (\<lambda>(n, acts, s). n))),
     case_sum (case_sum (\<lambda>(n, s, this, v). 2) (case_sum (\<lambda>(n, s, this). 1) (\<lambda>(n, p, this, ls, s). 5)))
              (case_sum (\<lambda>(n, s, f, v). 4) (case_sum (\<lambda>(n, s, this). 3) (\<lambda>(n, acts, s). 3))),
     case_sum (case_sum (\<lambda>(n, s, this, v). 0) (case_sum (\<lambda>(n, s, this). 0) (\<lambda>(n, p, this, ls, s). length ls)))
              (case_sum (\<lambda>(n, s, f, v). 0) (case_sum (\<lambda>(n, s, this). 0) (\<lambda>(n, acts, s). length acts)))]")
     auto

section \<open>Atom, and the constructors\<close>

definition setState :: "nat \<Rightarrow> state \<Rightarrow> nat \<Rightarrow> val \<Rightarrow> (outcome \<times> state) option" where
  "setState n s this v = update n s this v"

definition new_cell :: "state \<Rightarrow> val \<Rightarrow> gen option \<Rightarrow> nat \<times> state" where
  "new_cell s v g =
     (nextCell s,
      s\<lparr>cells := (cells s)(nextCell s :=
             \<lparr>cell_value = v, listeners = [], generate = g, registeredDeps = {}\<rparr>),
        nextCell := Suc (nextCell s)\<rparr>)"

definition atom :: "state \<Rightarrow> val \<Rightarrow> nat \<times> state" where
  "atom s v = new_cell s v None"

text \<open>
  The constructor of \<open>Selector\<close>: the object is made with the value \<open>undefined\<close>, the
  generator runs, and its result is assigned to \<open>value\<close>. When the generator throws, so
  does the constructor, and no selector is returned.
\<close>

definition selector :: "state \<Rightarrow> gen \<Rightarrow> (val + nat) \<times> state" where
  "selector s g =
     (case new_cell s VUndef (Some g) of (this, s1) \<Rightarrow>
        (case run_gen g this (record_event s1 (Generated this)) of
           (Inl e, s2) \<Rightarrow> (Inl e, s2)
         | (Inr v, s2) \<Rightarrow> (Inr this, set_value s2 this v)))"

text \<open>A client of the library creates a callback: a new function object.\<close>

definition new_callback :: "state \<Rightarrow> (val \<Rightarrow> action list) \<Rightarrow> nat \<times> state" where
  "new_callback s k = (nextFn s, s\<lparr>fns := (fns s)(nextFn s \<mapsto> External k), nextFn := Suc (nextFn s)\<rparr>)"

section \<open>The public interface\<close>

text \<open>
  What a client can do with the library: create atoms, selectors and callbacks, set an
  atom, subscribe a callback to a cell, and call a \<open>disconnect\<close> it was given.
\<close>

datatype op =
    NewAtom val
  | NewSelector gen
  | NewCallback "val \<Rightarrow> action list"
  | SetState nat val
  | Subscribe nat nat
  | CallDisconnect Disconnect

fun step :: "nat \<Rightarrow> state \<Rightarrow> op \<Rightarrow> (outcome \<times> state) option" where
  "step n s (NewAtom v) = Some (Normal, snd (atom s v))"
| "step n s (NewSelector g) =
     (case selector s g of (Inl e, s') \<Rightarrow> Some (Thrown e, s') | (Inr _, s') \<Rightarrow> Some (Normal, s'))"
| "step n s (NewCallback k) = Some (Normal, snd (new_callback s k))"
| "step n s (SetState a v) = setState n s a v"
| "step n s (Subscribe c f) = Some (Normal, snd (subscribe s c f))"
| "step n s (CallDisconnect h) = Some (Normal, disconnect s h)"

section \<open>Observations and invariants\<close>

text \<open>The callbacks that pass \<open>p\<close> of \<open>emit\<close> called, in the order of the calls.\<close>

fun invoked_in :: "nat \<Rightarrow> event list \<Rightarrow> nat list" where
  "invoked_in p [] = []"
| "invoked_in p (Notified q c f v # es) = (if q = p then f # invoked_in p es else invoked_in p es)"
| "invoked_in p (Generated c # es) = invoked_in p es"

text \<open>The events between a state and a later one.\<close>

definition new_events :: "state \<Rightarrow> state \<Rightarrow> event list" where
  "new_events s s' = drop (length (trace s)) (trace s')"

text \<open>The listeners of cell \<open>c\<close> that are arrow functions made by selector \<open>this\<close>.\<close>

definition hooks :: "state \<Rightarrow> nat \<Rightarrow> nat \<Rightarrow> nat list" where
  "hooks s this c = filter (\<lambda>f. fns s f = Some (UpdateSelector this)) (listeners (cells s c))"

definition is_external :: "state \<Rightarrow> nat \<Rightarrow> bool" where
  "is_external s f = (case fns s f of Some (External k) \<Rightarrow> True | _ \<Rightarrow> False)"

text \<open>
  The arrow function of \<open>addDep\<close> and the \<open>Disconnect\<close> that \<open>addDep\<close> drops are private to
  the selector: a client's callback subscribes and disconnects callbacks of clients.
\<close>

fun wf_action :: "state \<Rightarrow> action \<Rightarrow> bool" where
  "wf_action s (ASubscribe c f) = is_external s f"
| "wf_action s (ADisconnect (Disconnect c f)) = is_external s f"
| "wf_action s (ASetState a v) = True"
| "wf_action s (AThrow e) = True"

fun wf_op :: "state \<Rightarrow> op \<Rightarrow> bool" where
  "wf_op s (Subscribe c f) = is_external s f"
| "wf_op s (CallDisconnect (Disconnect c f)) = is_external s f"
| "wf_op s (NewCallback k) = (\<forall>v. \<forall>a \<in> set (k v). wf_action (snd (new_callback s k)) a)"
| "wf_op s (NewAtom v) = True"
| "wf_op s (NewSelector g) = True"
| "wf_op s (SetState a v) = True"

text \<open>
  The states the library can be in: the next function address is unused; the listeners
  of a cell are distinct function objects that exist; the callbacks of clients are
  well formed; an arrow function of \<open>addDep\<close> belongs to a selector that exists, listens
  to a registered dependency of it, and is the only one of that selector there.
\<close>

definition wf_fns :: "state \<Rightarrow> bool" where
  "wf_fns s \<longleftrightarrow>
     (\<forall>f. nextFn s \<le> f \<longrightarrow> fns s f = None) \<and>
     (\<forall>f this. fns s f = Some (UpdateSelector this) \<longrightarrow> this < nextCell s) \<and>
     (\<forall>f k v. fns s f = Some (External k) \<longrightarrow> (\<forall>a \<in> set (k v). wf_action s a))"

definition wf_listeners :: "state \<Rightarrow> bool" where
  "wf_listeners s \<longleftrightarrow>
     (\<forall>c. distinct (listeners (cells s c)) \<and> (\<forall>f \<in> set (listeners (cells s c)). fns s f \<noteq> None))"

definition wf_hooks :: "state \<Rightarrow> bool" where
  "wf_hooks s \<longleftrightarrow>
     (\<forall>c this. (hooks s this c \<noteq> [] \<longrightarrow> c \<in> registeredDeps (cells s this)) \<and>
                length (hooks s this c) \<le> 1)"

definition wf_state :: "state \<Rightarrow> bool" where
  "wf_state s \<longleftrightarrow> wf_fns s \<and> wf_listeners s \<and> wf_hooks s"

text \<open>
  A later state extends an earlier one: function objects stay what they are, and for
  every cell that existed the registered dependencies and the arrow functions of
  selectors among its listeners are still there.
\<close>

definition ext :: "state \<Rightarrow> state \<Rightarrow> bool" where
  "ext s s' \<longleftrightarrow>
     nextCell s \<le> nextCell s' \<and>
     (\<forall>f cl. fns s f = Some cl \<longrightarrow> fns s' f = Some cl) \<and>
     (\<forall>c < nextCell s. registeredDeps (cells s c) \<subseteq> registeredDeps (cells s' c)) \<and>
     (\<forall>c < nextCell s. \<forall>this. set (hooks s this c) \<subseteq> set (hooks s' this c))"



text \<open>
  Between \<open>s\<close> and \<open>s'\<close> the record of events was only extended, and no pass of \<open>emit\<close>
  that had started before \<open>s\<close> called anything.
\<close>

definition quiet :: "state \<Rightarrow> state \<Rightarrow> bool" where
  "quiet s s' \<longleftrightarrow>
     passes s \<le> passes s' \<and>
     (\<exists>es. trace s' = trace s @ es \<and> (\<forall>q < passes s. invoked_in q es = []))"

text \<open>
  Between \<open>s\<close> and \<open>s'\<close> pass \<open>p\<close> called a prefix of \<open>ls\<close>, the whole of it when the
  outcome is normal, and no other pass that had started before \<open>s\<close> called anything.
\<close>

definition pass_of :: "nat \<Rightarrow> nat list \<Rightarrow> outcome \<Rightarrow> state \<Rightarrow> state \<Rightarrow> bool" where
  "pass_of p ls r s s' \<longleftrightarrow>
     passes s \<le> passes s' \<and>
     (\<exists>es. trace s' = trace s @ es \<and>
        (\<forall>q < passes s. q \<noteq> p \<longrightarrow> invoked_in q es = []) \<and>
        prefix (invoked_in p es) ls \<and>
        (r = Normal \<longrightarrow> invoked_in p es = ls))"

text \<open>
  What a generator computes from the values of the cells, and the cells it reads on the
  way.
\<close>

primrec gen_value :: "gen \<Rightarrow> (nat \<Rightarrow> val) \<Rightarrow> val + val" where
  "gen_value (GReturn v) = (\<lambda>rd. Inr v)"
| "gen_value (GThrow e) = (\<lambda>rd. Inl e)"
| "gen_value (GGet dep k) = (\<lambda>rd. gen_value (k (rd dep)) rd)"

primrec reads :: "gen \<Rightarrow> (nat \<Rightarrow> val) \<Rightarrow> nat set" where
  "reads (GReturn v) = (\<lambda>rd. {})"
| "reads (GThrow e) = (\<lambda>rd. {})"
| "reads (GGet dep k) = (\<lambda>rd. insert dep (reads (k (rd dep)) rd))"

text \<open>
  Nothing in the state throws: no callback of a client, no generator whatever the cells
  hold, and every arrow function of \<open>addDep\<close> belongs to a selector.
\<close>

definition calm :: "state \<Rightarrow> bool" where
  "calm s \<longleftrightarrow>
     (\<forall>f this. fns s f = Some (UpdateSelector this) \<longrightarrow> generate (cells s this) \<noteq> None) \<and>
     (\<forall>f k v e. fns s f = Some (External k) \<longrightarrow> AThrow e \<notin> set (k v)) \<and>
     (\<forall>c g rd e. generate (cells s c) = Some g \<longrightarrow> gen_value g rd \<noteq> Inl e)"

section \<open>The programs of the examples\<close>

text \<open>The generator \<open>({get}) => get(name) + " is " + get(age)\<close>.\<close>

definition info_gen :: "nat \<Rightarrow> nat \<Rightarrow> gen" where
  "info_gen name age =
     GGet name (\<lambda>n. GGet age (\<lambda>a. GReturn (js_add (js_add n (VStr '' is '')) a)))"

text \<open>A switch, as in the tests: an atom that holds \<open>'on'\<close>.\<close>

definition switch_on :: state where
  "switch_on = snd (atom init (VStr ''on''))"

text \<open>
  An atom with three listeners. Callback 3 disconnects callback 0, subscribes callback 2
  and sets the atom that is notifying it; callbacks 0, 1 and 2 do nothing.
\<close>

definition reentrant_state :: state where
  "reentrant_state =
     (let s1 = snd (atom init (VNum 0));
          s2 = snd (new_callback s1 (\<lambda>v. []));
          s3 = snd (new_callback s2 (\<lambda>v. []));
          s4 = snd (new_callback s3 (\<lambda>v. []));
          s5 = snd (new_callback s4
                 (\<lambda>v. [ADisconnect (Disconnect 0 0), ASubscribe 0 2, ASetState 0 (VNum 2)]));
          s6 = snd (subscribe s5 0 3);
          s7 = snd (subscribe s6 0 0)
      in snd (subscribe s7 0 1))"

text \<open>An atom whose only listener sets the atom to 2 whenever it is called.\<close>

definition setter_state :: state where
  "setter_state =
     (let s1 = snd (atom init (VNum 0));
          s2 = snd (new_callback s1 (\<lambda>v. [ASetState 0 (VNum 2)]))
      in snd (subscribe s2 0 0))"

text \<open>An atom with two listeners: the first throws, the second does nothing.\<close>

definition thrower_state :: state where
  "thrower_state =
     (let s1 = snd (atom init (VNum 0));
          s2 = snd (new_callback s1 (\<lambda>v. [AThrow (VStr ''boom'')]));
          s3 = snd (new_callback s2 (\<lambda>v. []));
          s4 = snd (subscribe s3 0 0)
      in snd (subscribe s4 0 1))"


text \<open>An atom and one callback that is subscribed to it.\<close>

definition subscribed_state :: state where
  "subscribed_state =
     (let s1 = snd (atom init (VNum 0));
          s2 = snd (new_callback s1 (\<lambda>v. []))
      in snd (subscribe s2 0 0))"

text \<open>An atom with one listener, and a second callback that is not subscribed.\<close>

definition other_state :: state where
  "other_state =
     (let s1 = snd (atom init (VNum 0));
          s2 = snd (new_callback s1 (\<lambda>v. []));
          s3 = snd (new_callback s2 (\<lambda>v. []))
      in snd (subscribe s3 0 0))"

text \<open>The generator \<open>({get}) => get(A) + 1\<close>, and an atom \<open>A\<close> that holds 5.\<close>

definition succ_gen :: "nat \<Rightarrow> gen" where
  "succ_gen a = GGet a (\<lambda>v. GReturn (js_add v (VNum 1)))"

definition five_state :: state where
  "five_state = snd (atom init (VNum 5))"

text \<open>
  Atoms \<open>A\<close> and \<open>B\<close> that hold 5 and 7, and the selector \<open>get(A) + 1\<close>; the generator
  \<open>({get}) => get(B) + get(B)\<close>, which reads \<open>B\<close> twice.
\<close>

definition two_atoms_state :: state where
  "two_atoms_state =
     snd (selector (snd (atom (snd (atom init (VNum 5))) (VNum 7))) (succ_gen 0))"

definition twice_gen :: "nat \<Rightarrow> gen" where
  "twice_gen b = GGet b (\<lambda>v. GGet b (\<lambda>w. GReturn (js_add v w)))"

text \<open>
  The generator \<open>({get}) => get(flag) === 0 ? get(other) : "none"\<close>, which stops reading
  \<open>other\<close> when \<open>flag\<close> changes, and a selector made with it from two atoms.
\<close>

definition cond_gen :: "nat \<Rightarrow> nat \<Rightarrow> gen" where
  "cond_gen flag other =
     GGet flag (\<lambda>v. if strict_eq v (VNum 0) then GGet other (\<lambda>w. GReturn w) else GReturn (VStr ''none''))"

definition cond_state :: state where
  "cond_state =
     snd (selector (snd (atom (snd (atom init (VNum 0))) (VNum 7))) (cond_gen 0 1))"





text \<open>
  An atom that holds 1, with three listeners: callback 0 sets the atom to 2, callback 1
  throws when it is given 2 and does nothing otherwise, callback 2 does nothing.
\<close>

definition picky_state :: state where
  "picky_state =
     (let s1 = snd (atom init (VNum 1));
          s2 = snd (new_callback s1 (\<lambda>v. [ASetState 0 (VNum 2)]));
          s3 = snd (new_callback s2
                 (\<lambda>v. if strict_eq v (VNum 2) then [AThrow (VStr ''boom'')] else []));
          s4 = snd (new_callback s3 (\<lambda>v. []));
          s5 = snd (subscribe s4 0 0);
          s6 = snd (subscribe s5 0 1)
      in snd (subscribe s6 0 2))"

text \<open>
  An atom with two listeners: callback 0 sets the atom to the number it is given plus
  one, callback 1 does nothing.
\<close>

definition bump :: "val \<Rightarrow> action list" where
  "bump v = (case v of VNum m \<Rightarrow> [ASetState 0 (VNum (m + 1))] | _ \<Rightarrow> [])"

definition runaway_state :: state where
  "runaway_state =
     (let s1 = snd (atom init (VNum 0));
          s2 = snd (new_callback s1 bump);
          s3 = snd (new_callback s2 (\<lambda>v. []));
          s4 = snd (subscribe s3 0 0)
      in snd (subscribe s4 0 1))"

section \<open>Evaluation\<close>

declare update.simps [simp del] call.simps [simp del] updateSelector.simps [simp del]

lemmas prims = atom_def new_cell_def selector_def init_def addDep_def subscribe_def
  set_listeners_def set_add_def set_delete_def record_event_def snapshot_def set_value_def
  empty_cell_def setState_def new_callback_def

lemma digit_chars:
  "digit_char 0 = CHR ''0''" "digit_char 2 = CHR ''2''" "digit_char 3 = CHR ''3''"
  by (simp_all add: digit_char_def)

section \<open>Fields of the state after each step\<close>

lemma set_value_fields [simp]:
  "passes (set_value s c v) = passes s"
  "trace (set_value s c v) = trace s"
  "fns (set_value s c v) = fns s"
  "nextFn (set_value s c v) = nextFn s"
  "nextCell (set_value s c v) = nextCell s"
  "cells (set_value s c v) = (cells s)(c := (cells s c)\<lparr>cell_value := v\<rparr>)"
  by (simp_all add: set_value_def)

lemma set_listeners_fields [simp]:
  "passes (set_listeners s c ls) = passes s"
  "trace (set_listeners s c ls) = trace s"
  "fns (set_listeners s c ls) = fns s"
  "nextFn (set_listeners s c ls) = nextFn s"
  "nextCell (set_listeners s c ls) = nextCell s"
  "cells (set_listeners s c ls) = (cells s)(c := (cells s c)\<lparr>listeners := ls\<rparr>)"
  by (simp_all add: set_listeners_def)

lemma record_event_fields [simp]:
  "passes (record_event s e) = passes s"
  "trace (record_event s e) = trace s @ [e]"
  "fns (record_event s e) = fns s"
  "nextFn (record_event s e) = nextFn s"
  "nextCell (record_event s e) = nextCell s"
  "cells (record_event s e) = cells s"
  by (simp_all add: record_event_def)

lemma subscribe_snd [simp]:
  "snd (subscribe s c f) = set_listeners s c (set_add (listeners (cells s c)) f)"
  "fst (subscribe s c f) = Disconnect c f"
  by (simp_all add: subscribe_def)

lemma disconnect_fields [simp]:
  "passes (disconnect s h) = passes s"
  "trace (disconnect s h) = trace s"
  "fns (disconnect s h) = fns s"
  "nextFn (disconnect s h) = nextFn s"
  "nextCell (disconnect s h) = nextCell s"
  by (cases h; simp)+

lemma addDep_quiet_fields [simp]:
  "passes (snd (addDep s this dep)) = passes s"
  "trace (snd (addDep s this dep)) = trace s"
  "nextCell (snd (addDep s this dep)) = nextCell s"
  by (simp_all add: addDep_def Let_def)

lemma run_gen_quiet_fields:
  "passes (snd (run_gen g this s)) = passes s \<and> trace (snd (run_gen g this s)) = trace s
   \<and> nextCell (snd (run_gen g this s)) = nextCell s"
proof (induction g arbitrary: s)
  case (GGet dep k)
  show ?case
    using GGet [of "k (fst (addDep s this dep))" "snd (addDep s this dep)"]
    by (simp add: split_beta)
qed simp_all

section \<open>The calls of a pass are a prefix of the listeners it began with\<close>

lemma invoked_in_append [simp]: "invoked_in p (xs @ ys) = invoked_in p xs @ invoked_in p ys"
  by (induction p xs rule: invoked_in.induct) simp_all

lemma quiet_refl: "quiet s s"
  by (simp add: quiet_def)

lemma quiet_trans:
  assumes "quiet s s1" and "quiet s1 s2"
  shows "quiet s s2"
proof -
  from assms(1) obtain es where 1: "passes s \<le> passes s1" "trace s1 = trace s @ es"
    "\<forall>q < passes s. invoked_in q es = []"
    by (auto simp: quiet_def)
  from assms(2) obtain es' where 2: "passes s1 \<le> passes s2" "trace s2 = trace s1 @ es'"
    "\<forall>q < passes s1. invoked_in q es' = []"
    by (auto simp: quiet_def)
  have "trace s2 = trace s @ (es @ es')"
    using 1(2) 2(2) by simp
  moreover have "\<forall>q < passes s. invoked_in q (es @ es') = []"
    using 1(1,3) 2(3) by simp
  ultimately show ?thesis
    using 1(1) 2(1) unfolding quiet_def by (intro conjI exI [of _ "es @ es'"]) simp_all
qed

lemma quiet_from: "quiet s1 s' \<Longrightarrow> passes s1 = passes s \<Longrightarrow> trace s1 = trace s \<Longrightarrow> quiet s s'"
  by (simp add: quiet_def)

lemma quiet_run_gen: "run_gen g this s = (x, s') \<Longrightarrow> quiet s s'"
  using run_gen_quiet_fields [of g this s] by (simp add: quiet_def)

lemma pass_of_nil: "pass_of p [] Normal s s"
  by (simp add: pass_of_def)

lemma pass_of_emit:
  assumes "pass_of (passes s) ls r (s\<lparr>passes := Suc (passes s)\<rparr>) s'"
  shows "quiet s s'"
  using assms unfolding pass_of_def quiet_def by auto

lemma pass_of_thrown:
  assumes "p < passes s" and "quiet (record_event s (Notified p c l v)) s'" and "r \<noteq> Normal"
  shows "pass_of p (l # rest) r s s'"
  using assms unfolding pass_of_def quiet_def by auto

lemma pass_of_cons:
  assumes "p < passes s" and "quiet (record_event s (Notified p c l v)) s1"
    and "pass_of p rest r s1 s'"
  shows "pass_of p (l # rest) r s s'"
  using assms unfolding pass_of_def quiet_def by auto

lemma trace_lemma:
  "\<forall>r s'. update n s this v = Some (r, s') \<longrightarrow> quiet s s'"
  "\<forall>r s'. emit n s this = Some (r, s') \<longrightarrow> quiet s s'"
  "\<forall>r s'. emit_loop n p this ls s = Some (r, s') \<longrightarrow> p < passes s \<longrightarrow> pass_of p ls r s s'"
  "\<forall>r s'. call n s f v = Some (r, s') \<longrightarrow> quiet s s'"
  "\<forall>r s'. updateSelector n s this = Some (r, s') \<longrightarrow> quiet s s'"
  "\<forall>r s'. run_actions n acts s = Some (r, s') \<longrightarrow> quiet s s'"
proof (induction n s this v and n s this and n p this ls s and n s f v and n s this and n acts s
    rule: update_emit_emit_loop_call_updateSelector_run_actions.induct)
  case (1 n s this v)
  then show ?case
    using quiet_from [of "set_value s this v" _ s]
    by (auto simp: update.simps quiet_refl)
next
  case (2 s this)
  then show ?case by simp
next
  case (3 n s this)
  then show ?case by (auto intro: pass_of_emit)
next
  case (4 n p this s)
  then show ?case by (simp add: pass_of_nil)
next
  case (5 n p this listener rest s)
  show ?case
  proof (intro allI impI)
    fix r s'
    assume run: "emit_loop n p this (listener # rest) s = Some (r, s')" and p: "p < passes s"
    let ?s1 = "record_event s (Notified p this listener (snapshot s this))"
    from run obtain r1 s1 where c: "call n ?s1 listener (snapshot s this) = Some (r1, s1)"
      by (auto split: option.splits)
    with 5(1) have q: "quiet ?s1 s1" by simp
    show "pass_of p (listener # rest) r s s'"
    proof (cases r1)
      case Normal
      with run c have "emit_loop n p this rest s1 = Some (r, s')" by simp
      moreover from q p have "p < passes s1" by (simp add: quiet_def)
      ultimately have "pass_of p rest r s1 s'" using 5(2) [OF c refl Normal] by simp
      with p q show ?thesis by (rule pass_of_cons)
    next
      case (Thrown e)
      with run c have "r = Thrown e" "s' = s1" by simp_all
      with p q show ?thesis by (simp add: pass_of_thrown)
    qed
  qed
next
  case (6 n s f v)
  then show ?case
    by (auto simp: call.simps quiet_refl split: option.splits closure.splits)
next
  case (7 n s this)
  show ?case
  proof (intro allI impI)
    fix r s'
    assume run: "updateSelector n s this = Some (r, s')"
    show "quiet s s'"
    proof (cases "generate (cells s this)")
      case None
      with run show ?thesis by (simp add: updateSelector.simps quiet_refl)
    next
      case (Some g)
      obtain x s1 where g: "run_gen g this (record_event s (Generated this)) = (x, s1)"
        by (cases "run_gen g this (record_event s (Generated this))")
      have "quiet s (record_event s (Generated this))"
        by (simp add: quiet_def)
      then have q1: "quiet s s1"
        using quiet_run_gen [OF g] by (rule quiet_trans)
      show ?thesis
      proof (cases x)
        case (Inl e)
        with run Some g q1 show ?thesis by (simp add: updateSelector.simps)
      next
        case (Inr b)
        with run Some g have "update n s1 this b = Some (r, s')" by (simp add: updateSelector.simps)
        with 7 [OF Some g [symmetric] Inr] have "quiet s1 s'" by simp
        with q1 show ?thesis by (rule quiet_trans)
      qed
    qed
  qed
next
  case (8 n s)
  then show ?case by (simp add: quiet_refl)
next
  case (9 n a v rest s)
  show ?case
  proof (intro allI impI)
    fix r s'
    assume run: "run_actions n (ASetState a v # rest) s = Some (r, s')"
    then obtain r1 s1 where u: "update n s a v = Some (r1, s1)"
      by (auto split: option.splits)
    with 9(1) have q: "quiet s s1" by simp
    show "quiet s s'"
    proof (cases r1)
      case Normal
      with run u have "run_actions n rest s1 = Some (r, s')" by simp
      with 9(2) [OF u refl Normal] have "quiet s1 s'" by simp
      with q show ?thesis by (rule quiet_trans)
    next
      case (Thrown e)
      with run u q show ?thesis by simp
    qed
  qed
next
  case (10 n c f rest s)
  then show ?case
    using quiet_from [of "snd (subscribe s c f)" _ s] by auto
next
  case (11 n h rest s)
  then show ?case
    using quiet_from [of "disconnect s h" _ s] by auto
next
  case (12 n e rest s)
  then show ?case by (simp add: quiet_refl)
qed

section \<open>The invariant is preserved\<close>

lemma disconnect_cells [simp]:
  "cells (disconnect s (Disconnect c f)) = (cells s)(c := (cells s c)\<lparr>listeners := set_delete (listeners (cells s c)) f\<rparr>)"
  by simp

lemma addDep_registered:
  "dep \<in> registeredDeps (cells s this) \<Longrightarrow> addDep s this dep = (snapshot s dep, s)"
  by (simp add: addDep_def)

lemma addDep_fields:
  assumes "dep \<notin> registeredDeps (cells s this)"
  shows "fns (snd (addDep s this dep)) = (fns s)(nextFn s \<mapsto> UpdateSelector this)"
    and "nextFn (snd (addDep s this dep)) = Suc (nextFn s)"
    and "listeners (cells (snd (addDep s this dep)) c) =
           (if c = dep then set_add (listeners (cells s dep)) (nextFn s) else listeners (cells s c))"
    and "registeredDeps (cells (snd (addDep s this dep)) c) =
           (if c = this then insert dep (registeredDeps (cells s this)) else registeredDeps (cells s c))"
    and "generate (cells (snd (addDep s this dep)) c) = generate (cells s c)"
    and "cell_value (cells (snd (addDep s this dep)) c) = cell_value (cells s c)"
  using assms by (simp_all add: addDep_def Let_def)

lemma addDep_value [simp]:
  "fst (addDep s this dep) = snapshot s dep"
  "cell_value (cells (snd (addDep s this dep)) c) = cell_value (cells s c)"
  "generate (cells (snd (addDep s this dep)) c) = generate (cells s c)"
  by (simp_all add: addDep_def Let_def snapshot_def)

lemma filter_set_add:
  "\<not> P x \<Longrightarrow> filter P (set_add xs x) = filter P xs"
  by (simp add: set_add_def)

lemma filter_set_delete:
  "\<not> P x \<Longrightarrow> filter P (set_delete xs x) = filter P xs"
  by (induction xs) (auto simp: set_delete_def)

lemma distinct_set_add: "distinct xs \<Longrightarrow> distinct (set_add xs x)"
  by (simp add: set_add_def)

lemma distinct_set_delete: "distinct xs \<Longrightarrow> distinct (set_delete xs x)"
  by (simp add: set_delete_def distinct_removeAll)

lemma set_set_add [simp]: "set (set_add xs x) = insert x (set xs)"
  by (auto simp: set_add_def)

lemma set_set_delete [simp]: "set (set_delete xs x) = set xs - {x}"
  by (auto simp: set_delete_def)

lemma ext_refl: "ext s s"
  by (simp add: ext_def)

lemma ext_trans:
  assumes "ext s s1" and "ext s1 s2"
  shows "ext s s2"
proof -
  have n: "nextCell s \<le> nextCell s1" "nextCell s1 \<le> nextCell s2"
    using assms by (simp_all add: ext_def)
  have f: "\<forall>f cl. fns s f = Some cl \<longrightarrow> fns s2 f = Some cl"
    using assms by (simp add: ext_def)
  have d: "registeredDeps (cells s c) \<subseteq> registeredDeps (cells s2 c)" if "c < nextCell s" for c
  proof -
    from that n have "c < nextCell s1" by simp
    with that assms show ?thesis unfolding ext_def by blast
  qed
  have h: "set (hooks s this c) \<subseteq> set (hooks s2 this c)" if "c < nextCell s" for c this
  proof -
    from that n have "c < nextCell s1" by simp
    with that assms show ?thesis unfolding ext_def by blast
  qed
  from n f d h show ?thesis by (simp add: ext_def)
qed

lemma is_external_ext: "ext s s' \<Longrightarrow> is_external s f \<Longrightarrow> is_external s' f"
  by (auto simp: ext_def is_external_def split: option.splits closure.splits)

lemma wf_action_ext: "ext s s' \<Longrightarrow> wf_action s a \<Longrightarrow> wf_action s' a"
  by (induction s a rule: wf_action.induct) (auto intro: is_external_ext)

text \<open>A step that changes neither the function objects nor listeners nor dependencies.\<close>

lemma frame_step:
  assumes "wf_state s" and "fns s' = fns s" and "nextFn s' = nextFn s" and "nextCell s' = nextCell s"
    and "\<And>c. listeners (cells s' c) = listeners (cells s c)"
    and "\<And>c. registeredDeps (cells s' c) = registeredDeps (cells s c)"
  shows "wf_state s' \<and> ext s s'"
proof -
  have h: "hooks s' = hooks s"
    using assms by (simp add: hooks_def fun_eq_iff)
  have a: "wf_action s' = wf_action s"
  proof (rule HOL.ext)
    fix a' show "wf_action s' a' = wf_action s a'"
      using assms(2) by (induction s a' rule: wf_action.induct) (simp_all add: is_external_def)
  qed
  show ?thesis
    using assms h a by (simp add: wf_state_def wf_fns_def wf_listeners_def wf_hooks_def ext_def)
qed

lemma listeners_step:
  assumes "wf_state s" and "is_external s f"
    and "ls = set_add (listeners (cells s c)) f \<or> ls = set_delete (listeners (cells s c)) f"
  shows "wf_state (set_listeners s c ls) \<and> ext s (set_listeners s c ls)"
proof -
  let ?s' = "set_listeners s c ls"
  have nh: "fns s f \<noteq> Some (UpdateSelector this)" for this
    using assms(2) by (auto simp: is_external_def)
  have ex: "fns s f \<noteq> None"
    using assms(2) by (auto simp: is_external_def split: option.splits)
  have h: "hooks ?s' = hooks s"
    using assms(3) nh by (auto simp: hooks_def fun_eq_iff filter_set_add filter_set_delete)
  have a: "wf_action ?s' = wf_action s"
  proof (rule HOL.ext)
    fix a' show "wf_action ?s' a' = wf_action s a'"
      by (induction s a' rule: wf_action.induct) (simp_all add: is_external_def)
  qed
  have d: "distinct ls" "set ls \<subseteq> insert f (set (listeners (cells s c)))"
    using assms(1,3) by (auto simp: wf_state_def wf_listeners_def distinct_set_add distinct_set_delete)
  have "wf_fns ?s'"
    using assms(1) a by (simp add: wf_state_def wf_fns_def)
  moreover have "wf_listeners ?s'"
    using assms(1) d ex by (auto simp: wf_state_def wf_listeners_def)
  moreover have "wf_hooks ?s'"
    using assms(1) h by (simp add: wf_state_def wf_hooks_def)
  moreover have "ext s ?s'"
    using h by (simp add: ext_def)
  ultimately show ?thesis by (simp add: wf_state_def)
qed

lemma subscribe_step:
  "wf_state s \<Longrightarrow> is_external s f \<Longrightarrow> wf_state (snd (subscribe s c f)) \<and> ext s (snd (subscribe s c f))"
  by (simp add: listeners_step)

lemma disconnect_step:
  "wf_state s \<Longrightarrow> wf_action s (ADisconnect h) \<Longrightarrow> wf_state (disconnect s h) \<and> ext s (disconnect s h)"
  by (cases h) (simp add: listeners_step)

lemma addDep_step:
  assumes "wf_state s" and "this < nextCell s"
  shows "wf_state (snd (addDep s this dep)) \<and> ext s (snd (addDep s this dep))"
proof (cases "dep \<in> registeredDeps (cells s this)")
  case True
  with assms(1) show ?thesis by (simp add: addDep_registered ext_refl)
next
  case False
  let ?f = "nextFn s"
  let ?s' = "snd (addDep s this dep)"
  note fields = addDep_fields [OF False]
  have fresh: "fns s ?f = None"
    using assms(1) by (simp add: wf_state_def wf_fns_def)
  have notin: "?f \<notin> set (listeners (cells s c))" for c
    using assms(1) fresh by (fastforce simp: wf_state_def wf_listeners_def)
  have ls: "listeners (cells ?s' c) = (if c = dep then listeners (cells s dep) @ [?f] else listeners (cells s c))" for c
    using notin [of dep] by (simp add: fields set_add_def)
  have old: "filter (\<lambda>g. fns ?s' g = Some (UpdateSelector t)) (listeners (cells s c)) = hooks s t c" for t c
    unfolding hooks_def using notin [of c] by (intro filter_cong) (auto simp: fields(1))
  have new: "fns ?s' ?f = Some (UpdateSelector this)"
    by (simp add: fields(1))
  have hk: "hooks ?s' t c = (if c = dep \<and> t = this then hooks s t c @ [?f] else hooks s t c)" for t c
    using old [of t c] new by (auto simp: hooks_def [of ?s'] ls)
  have none: "hooks s this dep = []"
    using assms(1) False by (auto simp: wf_state_def wf_hooks_def)
  have e: "ext s ?s'"
    using fresh by (auto simp: ext_def fields hk)
  have "wf_fns ?s'"
    unfolding wf_fns_def
  proof (intro conjI allI impI)
    fix g assume "nextFn ?s' \<le> g"
    then show "fns ?s' g = None"
      using assms(1) by (simp add: fields wf_state_def wf_fns_def)
  next
    fix g t assume "fns ?s' g = Some (UpdateSelector t)"
    then show "t < nextCell ?s'"
      using assms by (auto simp: fields wf_state_def wf_fns_def split: if_splits)
  next
    fix g k v assume "fns ?s' g = Some (External k)"
    then have "fns s g = Some (External k)"
      by (simp add: fields split: if_splits)
    then have "\<forall>a \<in> set (k v). wf_action s a"
      using assms(1) by (simp add: wf_state_def wf_fns_def)
    then show "\<forall>a \<in> set (k v). wf_action ?s' a"
      using wf_action_ext [OF e] by blast
  qed
  moreover have "wf_listeners ?s'"
    using assms(1) notin [of dep] by (auto simp: wf_state_def wf_listeners_def ls fields(1))
  moreover have "wf_hooks ?s'"
    using assms(1) none by (auto simp: wf_state_def wf_hooks_def hk fields(4))
  ultimately show ?thesis using e by (simp add: wf_state_def)
qed

lemma run_gen_step:
  "wf_state s \<Longrightarrow> this < nextCell s \<Longrightarrow>
   wf_state (snd (run_gen g this s)) \<and> ext s (snd (run_gen g this s))"
proof (induction g arbitrary: s)
  case (GGet dep k)
  let ?s1 = "snd (addDep s this dep)"
  have a: "wf_state ?s1" "ext s ?s1"
    using addDep_step [OF GGet.prems] by simp_all
  have "wf_state (snd (run_gen (k (fst (addDep s this dep))) this ?s1)) \<and>
        ext ?s1 (snd (run_gen (k (fst (addDep s this dep))) this ?s1))"
    using GGet.IH [of "k (fst (addDep s this dep))" ?s1] a(1) GGet.prems(2) by simp
  with a(2) show ?case
    by (auto simp: split_beta intro: ext_trans)
qed (simp_all add: ext_refl)

lemma wf_lemma:
  "\<forall>r s'. wf_state s \<longrightarrow> update n s this v = Some (r, s') \<longrightarrow> wf_state s' \<and> ext s s'"
  "\<forall>r s'. wf_state s \<longrightarrow> emit n s this = Some (r, s') \<longrightarrow> wf_state s' \<and> ext s s'"
  "\<forall>r s'. wf_state s \<longrightarrow> emit_loop n p this ls s = Some (r, s') \<longrightarrow> wf_state s' \<and> ext s s'"
  "\<forall>r s'. wf_state s \<longrightarrow> call n s f v = Some (r, s') \<longrightarrow> wf_state s' \<and> ext s s'"
  "\<forall>r s'. wf_state s \<longrightarrow> this < nextCell s \<longrightarrow> updateSelector n s this = Some (r, s') \<longrightarrow>
      wf_state s' \<and> ext s s'"
  "\<forall>r s'. wf_state s \<longrightarrow> (\<forall>a \<in> set acts. wf_action s a) \<longrightarrow> run_actions n acts s = Some (r, s') \<longrightarrow>
      wf_state s' \<and> ext s s'"
proof (induction n s this v and n s this and n p this ls s and n s f v and n s this and n acts s
    rule: update_emit_emit_loop_call_updateSelector_run_actions.induct)
  case (1 n s this v)
  show ?case
  proof (intro allI impI)
    fix r s'
    assume w: "wf_state s" and run: "update n s this v = Some (r, s')"
    show "wf_state s' \<and> ext s s'"
    proof (cases "strict_eq (cell_value (cells s this)) v")
      case True
      with w run show ?thesis by (simp add: update.simps ext_refl)
    next
      case False
      have a: "wf_state (set_value s this v) \<and> ext s (set_value s this v)"
        using w by (intro frame_step) simp_all
      from False run have "emit n (set_value s this v) this = Some (r, s')"
        by (simp add: update.simps)
      with 1 [OF False] a have "wf_state s' \<and> ext (set_value s this v) s'" by simp
      with a show ?thesis by (blast intro: ext_trans)
    qed
  qed
next
  case (2 s this)
  then show ?case by simp
next
  case (3 n s this)
  show ?case
  proof (intro allI impI)
    fix r s'
    assume w: "wf_state s" and run: "emit (Suc n) s this = Some (r, s')"
    let ?s1 = "s\<lparr>passes := Suc (passes s)\<rparr>"
    have a: "wf_state ?s1 \<and> ext s ?s1"
      using w by (intro frame_step) simp_all
    with 3 run have "wf_state s' \<and> ext ?s1 s'" by simp
    with a show "wf_state s' \<and> ext s s'" by (blast intro: ext_trans)
  qed
next
  case (4 n p this s)
  then show ?case by (simp add: ext_refl)
next
  case (5 n p this listener rest s)
  show ?case
  proof (intro allI impI)
    fix r s'
    assume w: "wf_state s" and run: "emit_loop n p this (listener # rest) s = Some (r, s')"
    let ?s1 = "record_event s (Notified p this listener (snapshot s this))"
    have a: "wf_state ?s1 \<and> ext s ?s1"
      using w by (intro frame_step) simp_all
    from run obtain r1 s1 where c: "call n ?s1 listener (snapshot s this) = Some (r1, s1)"
      by (auto split: option.splits)
    with 5(1) a have b: "wf_state s1 \<and> ext ?s1 s1" by simp
    with a have b': "wf_state s1 \<and> ext s s1" by (blast intro: ext_trans)
    show "wf_state s' \<and> ext s s'"
    proof (cases r1)
      case Normal
      with run c have "emit_loop n p this rest s1 = Some (r, s')" by simp
      with 5(2) [OF c refl Normal] b have "wf_state s' \<and> ext s1 s'" by simp
      with b' show ?thesis by (blast intro: ext_trans)
    next
      case (Thrown e)
      with run c b' show ?thesis by simp
    qed
  qed
next
  case (6 n s f v)
  show ?case
  proof (intro allI impI)
    fix r s'
    assume w: "wf_state s" and run: "call n s f v = Some (r, s')"
    show "wf_state s' \<and> ext s s'"
    proof (cases "fns s f")
      case None
      with w run show ?thesis by (simp add: call.simps ext_refl)
    next
      case (Some cl)
      show ?thesis
      proof (cases cl)
        case (UpdateSelector t)
        with Some w have "t < nextCell s" by (simp add: wf_state_def wf_fns_def)
        moreover from run Some UpdateSelector have "updateSelector n s t = Some (r, s')"
          by (simp add: call.simps)
        ultimately show ?thesis using 6(1) [OF Some UpdateSelector] w by simp
      next
        case (External k)
        with Some w have "\<forall>a \<in> set (k v). wf_action s a" by (simp add: wf_state_def wf_fns_def)
        moreover from run Some External have "run_actions n (k v) s = Some (r, s')"
          by (simp add: call.simps)
        ultimately show ?thesis using 6(2) [OF Some External] w by simp
      qed
    qed
  qed
next
  case (7 n s this)
  show ?case
  proof (intro allI impI)
    fix r s'
    assume w: "wf_state s" and t: "this < nextCell s" and run: "updateSelector n s this = Some (r, s')"
    show "wf_state s' \<and> ext s s'"
    proof (cases "generate (cells s this)")
      case None
      with w run show ?thesis by (simp add: updateSelector.simps ext_refl)
    next
      case (Some g)
      let ?s0 = "record_event s (Generated this)"
      obtain x s1 where g: "run_gen g this ?s0 = (x, s1)"
        by (cases "run_gen g this ?s0")
      have a: "wf_state ?s0 \<and> ext s ?s0"
        using w by (intro frame_step) simp_all
      have "wf_state s1 \<and> ext ?s0 s1"
        using run_gen_step [of ?s0 this g] a t g by simp
      with a have b: "wf_state s1 \<and> ext s s1" by (blast intro: ext_trans)
      show ?thesis
      proof (cases x)
        case (Inl e)
        with run Some g b show ?thesis by (simp add: updateSelector.simps)
      next
        case (Inr y)
        with run Some g have "update n s1 this y = Some (r, s')"
          by (simp add: updateSelector.simps)
        with 7 [OF Some g [symmetric] Inr] b have "wf_state s' \<and> ext s1 s'" by simp
        with b show ?thesis by (blast intro: ext_trans)
      qed
    qed
  qed
next
  case (8 n s)
  then show ?case by (simp add: ext_refl)
next
  case (9 n a v rest s)
  show ?case
  proof (intro allI impI)
    fix r s'
    assume w: "wf_state s" and acts: "\<forall>a \<in> set (ASetState a v # rest). wf_action s a"
      and run: "run_actions n (ASetState a v # rest) s = Some (r, s')"
    then obtain r1 s1 where u: "update n s a v = Some (r1, s1)"
      by (auto split: option.splits)
    with 9(1) w have b: "wf_state s1 \<and> ext s s1" by simp
    show "wf_state s' \<and> ext s s'"
    proof (cases r1)
      case Normal
      with run u have "run_actions n rest s1 = Some (r, s')" by simp
      moreover from acts b have "\<forall>a \<in> set rest. wf_action s1 a"
        by (auto intro: wf_action_ext)
      ultimately have "wf_state s' \<and> ext s1 s'" using 9(2) [OF u refl Normal] b by simp
      with b show ?thesis by (blast intro: ext_trans)
    next
      case (Thrown e)
      with run u b show ?thesis by simp
    qed
  qed
next
  case (10 n c f rest s)
  show ?case
  proof (intro allI impI)
    fix r s'
    assume w: "wf_state s" and acts: "\<forall>a \<in> set (ASubscribe c f # rest). wf_action s a"
      and run: "run_actions n (ASubscribe c f # rest) s = Some (r, s')"
    let ?s1 = "snd (subscribe s c f)"
    have b: "wf_state ?s1 \<and> ext s ?s1"
      using w acts subscribe_step [of s f c] by simp
    moreover from acts b have "\<forall>a \<in> set rest. wf_action ?s1 a"
      by (auto intro: wf_action_ext)
    moreover from run have "run_actions n rest ?s1 = Some (r, s')" by simp
    ultimately have "wf_state s' \<and> ext ?s1 s'" using 10 by simp
    with b show "wf_state s' \<and> ext s s'" by (blast intro: ext_trans)
  qed
next
  case (11 n h rest s)
  show ?case
  proof (intro allI impI)
    fix r s'
    assume w: "wf_state s" and acts: "\<forall>a \<in> set (ADisconnect h # rest). wf_action s a"
      and run: "run_actions n (ADisconnect h # rest) s = Some (r, s')"
    let ?s1 = "disconnect s h"
    have b: "wf_state ?s1 \<and> ext s ?s1"
      using w acts disconnect_step [of s h] by simp
    moreover from acts b have "\<forall>a \<in> set rest. wf_action ?s1 a"
      by (auto intro: wf_action_ext)
    moreover from run have "run_actions n rest ?s1 = Some (r, s')" by simp
    ultimately have "wf_state s' \<and> ext ?s1 s'" using 11 by simp
    with b show "wf_state s' \<and> ext s s'" by (blast intro: ext_trans)
  qed
next
  case (12 n e rest s)
  then show ?case by (simp add: ext_refl)
qed

section \<open>The constructors and the public interface\<close>

lemma wf_init: "wf_state init"
  by (simp add: wf_state_def wf_fns_def wf_listeners_def wf_hooks_def hooks_def init_def empty_cell_def)

lemma new_cell_fields [simp]:
  "fst (new_cell s v g) = nextCell s"
  "fns (snd (new_cell s v g)) = fns s"
  "nextFn (snd (new_cell s v g)) = nextFn s"
  "nextCell (snd (new_cell s v g)) = Suc (nextCell s)"
  "passes (snd (new_cell s v g)) = passes s"
  "trace (snd (new_cell s v g)) = trace s"
  "cells (snd (new_cell s v g)) = (cells s)(nextCell s :=
     \<lparr>cell_value = v, listeners = [], generate = g, registeredDeps = {}\<rparr>)"
  by (simp_all add: new_cell_def)

lemma new_cell_step:
  assumes "wf_state s"
  shows "wf_state (snd (new_cell s v g)) \<and> ext s (snd (new_cell s v g))"
proof -
  let ?s' = "snd (new_cell s v g)"
  have a: "wf_action ?s' = wf_action s"
  proof (rule HOL.ext)
    fix a' show "wf_action ?s' a' = wf_action s a'"
      by (induction s a' rule: wf_action.induct) (simp_all add: is_external_def)
  qed
  have hk: "hooks ?s' t c = (if c = nextCell s then [] else hooks s t c)" for t c
    by (simp add: hooks_def)
  have nohook: "hooks s (nextCell s) c = []" for c
  proof -
    have "fns s f \<noteq> Some (UpdateSelector (nextCell s))" for f
      using assms by (auto simp: wf_state_def wf_fns_def)
    then show ?thesis by (simp add: hooks_def)
  qed
  have "wf_fns ?s'"
    using assms a by (auto simp: wf_state_def wf_fns_def less_Suc_eq)
  moreover have "wf_listeners ?s'"
    using assms by (simp add: wf_state_def wf_listeners_def)
  moreover have "wf_hooks ?s'"
    using assms nohook by (auto simp: wf_state_def wf_hooks_def hk)
  moreover have "ext s ?s'"
    by (simp add: ext_def hk)
  ultimately show ?thesis by (simp add: wf_state_def)
qed

lemma selector_step:
  assumes "wf_state s" and "selector s g = (x, s')"
  shows "wf_state s' \<and> ext s s'"
proof -
  let ?new = "nextCell s"
  let ?s1 = "snd (new_cell s VUndef (Some g))"
  let ?s2 = "record_event ?s1 (Generated ?new)"
  let ?s3 = "snd (run_gen g ?new ?s2)"
  have a: "wf_state ?s1 \<and> ext s ?s1"
    using assms(1) by (rule new_cell_step)
  have b: "wf_state ?s2 \<and> ext ?s1 ?s2"
    using a by (intro frame_step) simp_all
  have c: "wf_state ?s3 \<and> ext ?s2 ?s3"
    using b by (intro run_gen_step) simp_all
  have d: "wf_state (set_value ?s3 ?new y) \<and> ext ?s3 (set_value ?s3 ?new y)" for y
    using c by (intro frame_step) simp_all
  have e: "ext s ?s3"
    using a b c by (blast intro: ext_trans)
  have "s' = ?s3 \<or> (\<exists>y. s' = set_value ?s3 ?new y)"
    using assms(2) by (auto simp: selector_def split_beta split: prod.splits sum.splits)
  then show ?thesis
    using c d e by (auto intro: ext_trans)
qed

lemma new_callback_step:
  assumes "wf_state s" and "wf_op s (NewCallback k)"
  shows "wf_state (snd (new_callback s k)) \<and> ext s (snd (new_callback s k))"
proof -
  let ?f = "nextFn s"
  let ?s' = "snd (new_callback s k)"
  have fields: "fns ?s' = (fns s)(?f \<mapsto> External k)" "nextFn ?s' = Suc ?f"
    "nextCell ?s' = nextCell s" "cells ?s' = cells s"
    by (simp_all add: new_callback_def)
  have fresh: "fns s ?f = None"
    using assms(1) by (simp add: wf_state_def wf_fns_def)
  have hk: "hooks ?s' t c = hooks s t c" for t c
    unfolding hooks_def fields using fresh by (intro filter_cong) auto
  have e: "ext s ?s'"
    using fresh by (auto simp: ext_def fields hk)
  have "wf_fns ?s'"
    unfolding wf_fns_def
  proof (intro conjI allI impI)
    fix g assume "nextFn ?s' \<le> g"
    then show "fns ?s' g = None"
      using assms(1) by (simp add: fields wf_state_def wf_fns_def)
  next
    fix g t assume "fns ?s' g = Some (UpdateSelector t)"
    then show "t < nextCell ?s'"
      using assms(1) by (auto simp: fields wf_state_def wf_fns_def split: if_splits)
  next
    fix g k' v assume g: "fns ?s' g = Some (External k')"
    show "\<forall>a \<in> set (k' v). wf_action ?s' a"
    proof (cases "g = ?f")
      case True
      with g have "k' = k" by (simp add: fields)
      with assms(2) show ?thesis by simp
    next
      case False
      with g have "fns s g = Some (External k')" by (simp add: fields)
      then have "\<forall>a \<in> set (k' v). wf_action s a"
        using assms(1) by (simp add: wf_state_def wf_fns_def)
      then show ?thesis using wf_action_ext [OF e] by blast
    qed
  qed
  moreover have "wf_listeners ?s'"
    using assms(1) by (auto simp: wf_state_def wf_listeners_def fields)
  moreover have "wf_hooks ?s'"
    using assms(1) by (simp add: wf_state_def wf_hooks_def hk fields)
  ultimately show ?thesis using e by (simp add: wf_state_def)
qed

lemma step_wf_ext:
  assumes "wf_state s" and "wf_op s op" and "step n s op = Some (r, s')"
  shows "wf_state s' \<and> ext s s'"
proof (cases op)
  case (NewAtom v)
  with assms show ?thesis by (auto simp: atom_def new_cell_step)
next
  case (NewSelector g)
  with assms show ?thesis
    by (auto split: prod.splits sum.splits dest: selector_step [OF assms(1)])
next
  case (NewCallback k)
  with assms show ?thesis using new_callback_step [of s k] by auto
next
  case (SetState a v)
  with assms show ?thesis using wf_lemma(1) [of s n a v] by (simp add: setState_def)
next
  case (Subscribe c f)
  with assms show ?thesis using subscribe_step [of s f c] by auto
next
  case (CallDisconnect h)
  with assms show ?thesis using disconnect_step [of s h] by (cases h) auto
qed

section \<open>An atom that no callback sets keeps its value\<close>

lemma snapshot_addDep [simp]: "snapshot (snd (addDep s this dep)) = snapshot s"
  by (simp add: snapshot_def fun_eq_iff)

lemma run_gen_values:
  "fst (run_gen g this s) = gen_value g (snapshot s) \<and>
   snapshot (snd (run_gen g this s)) = snapshot s \<and>
   (\<forall>c. generate (cells (snd (run_gen g this s)) c) = generate (cells s c))"
proof (induction g arbitrary: s)
  case (GGet dep k)
  show ?case
    using GGet [of "k (snapshot s dep)" "snd (addDep s this dep)"]
    by (simp add: split_beta)
qed simp_all








section \<open>One pass of emit\<close>

lemma new_events_append: "trace s' = trace s @ es \<Longrightarrow> new_events s s' = es"
  by (simp add: new_events_def)

lemma emit_pass:
  assumes "emit n s this = Some (r, s')"
  shows "prefix (invoked_in (passes s) (new_events s s')) (listeners (cells s this)) \<and>
         (r = Normal \<longrightarrow> invoked_in (passes s) (new_events s s') = listeners (cells s this))"
proof (cases n)
  case 0
  with assms show ?thesis by simp
next
  case (Suc m)
  let ?s1 = "s\<lparr>passes := Suc (passes s)\<rparr>"
  from assms Suc have "emit_loop m (passes s) this (listeners (cells s this)) ?s1 = Some (r, s')"
    by simp
  then have "pass_of (passes s) (listeners (cells s this)) r ?s1 s'"
    using trace_lemma(3) [of m "passes s" this "listeners (cells s this)" ?s1] by simp
  then obtain es where "trace s' = trace s @ es"
    and "prefix (invoked_in (passes s) es) (listeners (cells s this))"
    and "r = Normal \<longrightarrow> invoked_in (passes s) es = listeners (cells s this)"
    by (auto simp: pass_of_def)
  then show ?thesis by (simp add: new_events_append)
qed

lemma wf_distinct: "wf_state s \<Longrightarrow> distinct (listeners (cells s c))"
  by (simp add: wf_state_def wf_listeners_def)

lemma prefix_distinct: "prefix xs ys \<Longrightarrow> distinct ys \<Longrightarrow> distinct xs"
  by (auto simp: prefix_def)
declare emit.simps [simp del] emit_loop.simps [simp del] run_actions.simps [simp del]
lemmas eval_simps = prims update.simps call.simps updateSelector.simps emit.simps emit_loop.simps
  run_actions.simps new_events_def Let_def

lemma wf_reentrant_state: "wf_state reentrant_state"
  by (auto simp: reentrant_state_def wf_state_def wf_fns_def wf_listeners_def wf_hooks_def hooks_def
      is_external_def prims Let_def split: if_splits)

lemma reentrant_emit:
  "emit (Suc (Suc 0)) reentrant_state 0 = Some (Normal, snd (the (emit (Suc (Suc 0)) reentrant_state 0)))
   \<and> listeners (cells reentrant_state 0) = [3, 0, 1]
   \<and> listeners (cells (snd (the (emit (Suc (Suc 0)) reentrant_state 0))) 0) = [3, 1, 2]"
  by (simp add: reentrant_state_def eval_simps)

lemma update_pass:
  assumes "\<not> strict_eq (snapshot s a) v" and "update n s a v = Some (r, s')"
  shows "prefix (invoked_in (passes s) (new_events s s')) (listeners (cells s a)) \<and>
         (r = Normal \<longrightarrow> invoked_in (passes s) (new_events s s') = listeners (cells s a))"
proof -
  from assms have "emit n (set_value s a v) a = Some (r, s')"
    by (simp add: update.simps snapshot_def)
  from emit_pass [OF this] show ?thesis
    by (simp add: new_events_def)
qed


section \<open>Subscribing and disconnecting\<close>

lemma set_delete_set_add: "set_delete (set_add xs x) x = set_delete xs x"
  by (simp add: set_add_def set_delete_def)

lemma set_delete_absent: "x \<notin> set xs \<Longrightarrow> set_delete xs x = xs"
  by (simp add: set_delete_def)

lemma set_listeners_same: "set_listeners s c (listeners (cells s c)) = s"
  by (simp add: set_listeners_def)

lemma set_listeners_twice: "set_listeners (set_listeners s c xs) c ys = set_listeners s c ys"
  by (simp add: set_listeners_def)

lemma length_removeAll_distinct:
  "distinct xs \<Longrightarrow> x \<in> set xs \<Longrightarrow> Suc (length (removeAll x xs)) = length xs"
  by (induction xs) auto

lemma subscribe_then_disconnect:
  "disconnect (snd (subscribe s c cb)) (fst (subscribe s c cb))
     = set_listeners s c (set_delete (listeners (cells s c)) cb)"
  by (simp add: set_listeners_twice set_delete_set_add)

lemma disconnect_twice: "disconnect (disconnect s h) h = disconnect s h"
  by (cases h) (simp add: set_listeners_twice set_delete_def)

lemma not_invoked:
  assumes "cb \<notin> set (listeners (cells s c))" and "update n s c v = Some (r, s')"
  shows "cb \<notin> set (invoked_in (passes s) (new_events s s'))"
proof (cases "strict_eq (snapshot s c) v")
  case True
  with assms(2) have "s' = s" by (simp add: update.simps snapshot_def)
  then show ?thesis by (simp add: new_events_def)
next
  case False
  from update_pass [OF False assms(2)] assms(1) show ?thesis
    by (auto dest: set_mono_prefix)
qed
lemma count_list_set_add:
  "distinct xs \<Longrightarrow> count_list (set_add xs x) x = 1"
proof (induction xs)
  case Nil
  then show ?case by (simp add: set_add_def)
next
  case (Cons y ys)
  then show ?case by (auto simp: set_add_def count_list_0_iff)
qed

lemma count_list_distinct: "distinct xs \<Longrightarrow> count_list xs x \<le> 1"
  by (induction xs) (auto simp: count_list_0_iff)

lemma subscribe_again:
  "snd (subscribe (snd (subscribe s c cb)) c cb) = snd (subscribe s c cb)"
  by (simp add: set_listeners_twice set_add_def)

section \<open>Running a generator\<close>

lemma run_gen_trace: "trace (snd (run_gen g this s)) = trace s"
  and run_gen_passes: "passes (snd (run_gen g this s)) = passes s"
  using run_gen_quiet_fields [of g this s] by simp_all

lemma run_gen_result: "fst (run_gen g this s) = gen_value g (snapshot s)"
  and run_gen_snapshot: "snapshot (snd (run_gen g this s)) = snapshot s"
  using run_gen_values [of g this s] by simp_all
lemma wf_fresh: "wf_state s \<Longrightarrow> nextFn s \<notin> set (listeners (cells s c))"
  by (fastforce simp: wf_state_def wf_fns_def wf_listeners_def)

lemma addDep_listeners:
  assumes "wf_state s"
  shows "listeners (cells (snd (addDep s this dep)) c) =
     (if c = dep \<and> dep \<notin> registeredDeps (cells s this)
      then listeners (cells s dep) @ [nextFn s] else listeners (cells s c))"
proof (cases "dep \<in> registeredDeps (cells s this)")
  case True
  then show ?thesis by (simp add: addDep_registered)
next
  case False
  then show ?thesis
    using wf_fresh [OF assms, of dep] by (simp add: addDep_fields set_add_def)
qed

lemma addDep_registeredDeps:
  "registeredDeps (cells (snd (addDep s this dep)) c) =
     (if c = this then insert dep (registeredDeps (cells s this)) else registeredDeps (cells s c))"
  by (cases "dep \<in> registeredDeps (cells s this)")
     (auto simp: addDep_registered addDep_fields)

lemma run_gen_listeners:
  assumes "wf_state s" and "this < nextCell s"
  shows "length (listeners (cells (snd (run_gen g this s)) c)) =
     length (listeners (cells s c)) +
       (if c \<in> reads g (snapshot s) \<and> c \<notin> registeredDeps (cells s this) then 1 else 0)"
  using assms
proof (induction g arbitrary: s)
  case (GGet dep k)
  let ?s1 = "snd (addDep s this dep)"
  have w: "wf_state ?s1" "this < nextCell ?s1"
    using addDep_step [OF GGet.prems, of dep] GGet.prems(2) by simp_all
  have "length (listeners (cells (snd (run_gen (k (snapshot s dep)) this ?s1)) c)) =
     length (listeners (cells ?s1 c)) +
       (if c \<in> reads (k (snapshot s dep)) (snapshot ?s1) \<and> c \<notin> registeredDeps (cells ?s1 this)
        then 1 else 0)"
    using GGet.IH [of "k (snapshot s dep)" ?s1] w by simp
  then show ?case
    by (auto simp add: split_beta addDep_listeners [OF GGet.prems(1)] addDep_registeredDeps)
qed simp_all

lemma wf_hooks_le: "wf_state s \<Longrightarrow> length (hooks s this c) \<le> 1"
  by (simp add: wf_state_def wf_hooks_def)
section \<open>A generator that throws\<close>






section \<open>More fuel gives the same result\<close>

lemma fuel_step:
  "\<forall>x. update n s this v = Some x \<longrightarrow> update (Suc n) s this v = Some x"
  "\<forall>x. emit n s this = Some x \<longrightarrow> emit (Suc n) s this = Some x"
  "\<forall>x. emit_loop n p this ls s = Some x \<longrightarrow> emit_loop (Suc n) p this ls s = Some x"
  "\<forall>x. call n s f v = Some x \<longrightarrow> call (Suc n) s f v = Some x"
  "\<forall>x. updateSelector n s this = Some x \<longrightarrow> updateSelector (Suc n) s this = Some x"
  "\<forall>x. run_actions n acts s = Some x \<longrightarrow> run_actions (Suc n) acts s = Some x"
proof (induction n s this v and n s this and n p this ls s and n s f v and n s this and n acts s
    rule: update_emit_emit_loop_call_updateSelector_run_actions.induct)
  case (1 n s this v)
  then show ?case by (simp add: update.simps)
next
  case (2 s this)
  then show ?case by (simp add: emit.simps)
next
  case (3 n s this)
  then show ?case by (simp add: emit.simps)
next
  case (4 n p this s)
  then show ?case by (simp add: emit_loop.simps)
next
  case (5 n p this listener rest s)
  show ?case
  proof (intro allI impI)
    fix x
    assume run: "emit_loop n p this (listener # rest) s = Some x"
    let ?s1 = "record_event s (Notified p this listener (snapshot s this))"
    from run obtain r1 s1 where c: "call n ?s1 listener (snapshot s this) = Some (r1, s1)"
      by (auto simp: emit_loop.simps split: option.splits)
    with 5(1) have c': "call (Suc n) ?s1 listener (snapshot s this) = Some (r1, s1)" by simp
    show "emit_loop (Suc n) p this (listener # rest) s = Some x"
    proof (cases r1)
      case Normal
      with run c have "emit_loop n p this rest s1 = Some x" by (simp add: emit_loop.simps)
      with 5(2) [OF c refl Normal] have "emit_loop (Suc n) p this rest s1 = Some x" by simp
      with c' Normal show ?thesis by (simp add: emit_loop.simps)
    next
      case (Thrown e)
      with run c c' show ?thesis by (auto simp: emit_loop.simps)
    qed
  qed
next
  case (6 n s f v)
  then show ?case
    by (auto simp: call.simps split: option.splits closure.splits)
next
  case (7 n s this)
  then show ?case
    by (auto simp: updateSelector.simps split: option.splits prod.splits sum.splits)
next
  case (8 n s)
  then show ?case by (simp add: run_actions.simps)
next
  case (9 n a v rest s)
  show ?case
  proof (intro allI impI)
    fix x
    assume run: "run_actions n (ASetState a v # rest) s = Some x"
    then obtain r1 s1 where u: "update n s a v = Some (r1, s1)"
      by (auto simp: run_actions.simps split: option.splits)
    with 9(1) have u': "update (Suc n) s a v = Some (r1, s1)" by simp
    show "run_actions (Suc n) (ASetState a v # rest) s = Some x"
    proof (cases r1)
      case Normal
      with run u have "run_actions n rest s1 = Some x" by (simp add: run_actions.simps)
      with 9(2) [OF u refl Normal] have "run_actions (Suc n) rest s1 = Some x" by simp
      with u' Normal show ?thesis by (simp add: run_actions.simps)
    next
      case (Thrown e)
      with run u u' show ?thesis by (auto simp: run_actions.simps)
    qed
  qed
next
  case (10 n c f rest s)
  then show ?case by (simp add: run_actions.simps)
next
  case (11 n h rest s)
  then show ?case by (simp add: run_actions.simps)
next
  case (12 n e rest s)
  then show ?case by (simp add: run_actions.simps)
qed

lemma fuel_mono: "setState n s a v = Some x \<Longrightarrow> setState (n + k) s a v = Some x"
proof (induction k)
  case 0
  then show ?case by simp
next
  case (Suc k)
  then show ?case using fuel_step(1) [of "n + k" s a v] by (simp add: setState_def)
qed

section \<open>Without a callback or a generator that throws, nothing is thrown\<close>

lemma calm_frame:
  "calm s \<Longrightarrow> fns s' = fns s \<Longrightarrow> (\<And>c. generate (cells s' c) = generate (cells s c)) \<Longrightarrow> calm s'"
  by (simp add: calm_def)

lemma calm_disconnect: "calm s \<Longrightarrow> calm (disconnect s h)"
  by (cases h) (auto intro: calm_frame)

lemma calm_addDep:
  "calm s \<Longrightarrow> generate (cells s this) \<noteq> None \<Longrightarrow> calm (snd (addDep s this dep))"
  by (cases "dep \<in> registeredDeps (cells s this)")
     (auto simp: calm_def addDep_registered addDep_fields(1))

lemma calm_run_gen:
  "calm s \<Longrightarrow> generate (cells s this) \<noteq> None \<Longrightarrow> calm (snd (run_gen g this s))"
proof (induction g arbitrary: s)
  case (GGet dep k)
  show ?case
    using GGet.IH [of "k (fst (addDep s this dep))" "snd (addDep s this dep)"]
      calm_addDep [OF GGet.prems, of dep] GGet.prems(2)
    by (simp add: split_beta)
qed simp_all

lemma ext_fns: "ext s s' \<Longrightarrow> fns s f \<noteq> None \<Longrightarrow> fns s' f \<noteq> None"
  by (auto simp: ext_def)

lemma calm_lemma:
  "\<forall>r s'. wf_state s \<longrightarrow> calm s \<longrightarrow> update n s this v = Some (r, s') \<longrightarrow> r = Normal \<and> calm s'"
  "\<forall>r s'. wf_state s \<longrightarrow> calm s \<longrightarrow> emit n s this = Some (r, s') \<longrightarrow> r = Normal \<and> calm s'"
  "\<forall>r s'. wf_state s \<longrightarrow> calm s \<longrightarrow> (\<forall>l \<in> set ls. fns s l \<noteq> None) \<longrightarrow>
      emit_loop n p this ls s = Some (r, s') \<longrightarrow> r = Normal \<and> calm s'"
  "\<forall>r s'. wf_state s \<longrightarrow> calm s \<longrightarrow> fns s f \<noteq> None \<longrightarrow>
      call n s f v = Some (r, s') \<longrightarrow> r = Normal \<and> calm s'"
  "\<forall>r s'. wf_state s \<longrightarrow> calm s \<longrightarrow> this < nextCell s \<longrightarrow> generate (cells s this) \<noteq> None \<longrightarrow>
      updateSelector n s this = Some (r, s') \<longrightarrow> r = Normal \<and> calm s'"
  "\<forall>r s'. wf_state s \<longrightarrow> calm s \<longrightarrow> (\<forall>a \<in> set acts. wf_action s a) \<longrightarrow> (\<forall>e. AThrow e \<notin> set acts) \<longrightarrow>
      run_actions n acts s = Some (r, s') \<longrightarrow> r = Normal \<and> calm s'"
proof (induction n s this v and n s this and n p this ls s and n s f v and n s this and n acts s
    rule: update_emit_emit_loop_call_updateSelector_run_actions.induct)
  case (1 n s this v)
  show ?case
  proof (intro allI impI)
    fix r s'
    assume w: "wf_state s" and c: "calm s" and run: "update n s this v = Some (r, s')"
    show "r = Normal \<and> calm s'"
    proof (cases "strict_eq (cell_value (cells s this)) v")
      case True
      with c run show ?thesis by (simp add: update.simps)
    next
      case False
      have "wf_state (set_value s this v)"
        using frame_step [of s "set_value s this v"] w by simp
      moreover have "calm (set_value s this v)"
        using c by (rule calm_frame) simp_all
      moreover from False run have "emit n (set_value s this v) this = Some (r, s')"
        by (simp add: update.simps)
      ultimately show ?thesis using 1 [OF False] by simp
    qed
  qed
next
  case (2 s this)
  then show ?case by (simp add: emit.simps)
next
  case (3 n s this)
  show ?case
  proof (intro allI impI)
    fix r s'
    assume w: "wf_state s" and c: "calm s" and run: "emit (Suc n) s this = Some (r, s')"
    let ?s1 = "s\<lparr>passes := Suc (passes s)\<rparr>"
    have "wf_state ?s1"
      using frame_step [of s ?s1] w by simp
    moreover have "calm ?s1"
      using c by (rule calm_frame) simp_all
    moreover have "\<forall>l \<in> set (listeners (cells s this)). fns ?s1 l \<noteq> None"
      using w by (simp add: wf_state_def wf_listeners_def)
    moreover from run have "emit_loop n (passes s) this (listeners (cells s this)) ?s1 = Some (r, s')"
      by (simp add: emit.simps)
    ultimately show "r = Normal \<and> calm s'" using 3 by simp
  qed
next
  case (4 n p this s)
  then show ?case by (simp add: emit_loop.simps)
next
  case (5 n p this listener rest s)
  show ?case
  proof (intro allI impI)
    fix r s'
    assume w: "wf_state s" and c: "calm s" and ls: "\<forall>l \<in> set (listener # rest). fns s l \<noteq> None"
      and run: "emit_loop n p this (listener # rest) s = Some (r, s')"
    let ?s1 = "record_event s (Notified p this listener (snapshot s this))"
    have w1: "wf_state ?s1"
      using frame_step [of s ?s1] w by simp
    have c1: "calm ?s1"
      using c by (rule calm_frame) simp_all
    from run obtain r1 s1 where cl: "call n ?s1 listener (snapshot s this) = Some (r1, s1)"
      by (auto simp: emit_loop.simps split: option.splits)
    from 5(1) w1 c1 ls cl have n1: "r1 = Normal" and c2: "calm s1" by simp_all
    from wf_lemma(4) w1 cl have w2: "wf_state s1" and e: "ext ?s1 s1" by blast+
    from ls e have ls2: "\<forall>l \<in> set rest. fns s1 l \<noteq> None"
      using ext_fns [OF e] by simp
    from run cl n1 have "emit_loop n p this rest s1 = Some (r, s')"
      by (simp add: emit_loop.simps)
    with 5(2) [OF cl refl n1] w2 c2 ls2 show "r = Normal \<and> calm s'" by simp
  qed
next
  case (6 n s f v)
  show ?case
  proof (intro allI impI)
    fix r s'
    assume w: "wf_state s" and c: "calm s" and f: "fns s f \<noteq> None"
      and run: "call n s f v = Some (r, s')"
    from f obtain cl where Some: "fns s f = Some cl" by auto
    show "r = Normal \<and> calm s'"
    proof (cases cl)
      case (UpdateSelector t)
      with Some w have "t < nextCell s" by (simp add: wf_state_def wf_fns_def)
      moreover from Some UpdateSelector c have "generate (cells s t) \<noteq> None"
        by (simp add: calm_def)
      moreover from run Some UpdateSelector have "updateSelector n s t = Some (r, s')"
        by (simp add: call.simps)
      ultimately show ?thesis using 6(1) [OF Some UpdateSelector] w c by simp
    next
      case (External k)
      with Some w have "\<forall>a \<in> set (k v). wf_action s a" by (simp add: wf_state_def wf_fns_def)
      moreover from Some External c have "\<forall>e. AThrow e \<notin> set (k v)"
        by (simp add: calm_def)
      moreover from run Some External have "run_actions n (k v) s = Some (r, s')"
        by (simp add: call.simps)
      ultimately show ?thesis using 6(2) [OF Some External] w c by simp
    qed
  qed
next
  case (7 n s this)
  show ?case
  proof (intro allI impI)
    fix r s'
    assume w: "wf_state s" and c: "calm s" and t: "this < nextCell s"
      and gen: "generate (cells s this) \<noteq> None"
      and run: "updateSelector n s this = Some (r, s')"
    from gen obtain g where Some: "generate (cells s this) = Some g" by auto
    let ?s0 = "record_event s (Generated this)"
    obtain x s1 where g: "run_gen g this ?s0 = (x, s1)"
      by (cases "run_gen g this ?s0")
    have w0: "wf_state ?s0"
      using frame_step [of s ?s0] w by simp
    have c0: "calm ?s0"
      using c by (rule calm_frame) simp_all
    have w1: "wf_state s1"
      using run_gen_step [of ?s0 this g] w0 t g by simp
    have c1: "calm s1"
      using calm_run_gen [of ?s0 this g] c0 gen g by simp
    have "x = gen_value g (snapshot ?s0)"
      using run_gen_result [of g this ?s0] g by simp
    with c Some have "\<forall>e. x \<noteq> Inl e" by (simp add: calm_def)
    then obtain y where Inr: "x = Inr y" by (cases x) auto
    with run Some g have "update n s1 this y = Some (r, s')"
      by (simp add: updateSelector.simps)
    with 7 [OF Some g [symmetric] Inr] w1 c1 show "r = Normal \<and> calm s'" by simp
  qed
next
  case (8 n s)
  then show ?case by (simp add: run_actions.simps)
next
  case (9 n a v rest s)
  show ?case
  proof (intro allI impI)
    fix r s'
    assume w: "wf_state s" and c: "calm s" and acts: "\<forall>a \<in> set (ASetState a v # rest). wf_action s a"
      and nt: "\<forall>e. AThrow e \<notin> set (ASetState a v # rest)"
      and run: "run_actions n (ASetState a v # rest) s = Some (r, s')"
    then obtain r1 s1 where u: "update n s a v = Some (r1, s1)"
      by (auto simp: run_actions.simps split: option.splits)
    from 9(1) w c u have n1: "r1 = Normal" and c1: "calm s1" by simp_all
    from wf_lemma(1) w u have w1: "wf_state s1" and e: "ext s s1" by blast+
    from acts e have a1: "\<forall>a \<in> set rest. wf_action s1 a"
      by (auto intro: wf_action_ext)
    from run u n1 have "run_actions n rest s1 = Some (r, s')"
      by (simp add: run_actions.simps)
    with 9(2) [OF u refl n1] w1 c1 a1 nt show "r = Normal \<and> calm s'" by simp
  qed
next
  case (10 n c f rest s)
  show ?case
  proof (intro allI impI)
    fix r s'
    assume w: "wf_state s" and c: "calm s" and acts: "\<forall>a \<in> set (ASubscribe c f # rest). wf_action s a"
      and nt: "\<forall>e. AThrow e \<notin> set (ASubscribe c f # rest)"
      and run: "run_actions n (ASubscribe c f # rest) s = Some (r, s')"
    let ?s1 = "snd (subscribe s c f)"
    have b: "wf_state ?s1 \<and> ext s ?s1"
      using w acts subscribe_step [of s f c] by simp
    have c1: "calm ?s1"
      using c by (rule calm_frame) simp_all
    from acts b have a1: "\<forall>a \<in> set rest. wf_action ?s1 a"
      by (auto intro: wf_action_ext)
    from run have "run_actions n rest ?s1 = Some (r, s')" by (simp add: run_actions.simps)
    with 10 b c1 a1 nt show "r = Normal \<and> calm s'" by simp
  qed
next
  case (11 n h rest s)
  show ?case
  proof (intro allI impI)
    fix r s'
    assume w: "wf_state s" and c: "calm s" and acts: "\<forall>a \<in> set (ADisconnect h # rest). wf_action s a"
      and nt: "\<forall>e. AThrow e \<notin> set (ADisconnect h # rest)"
      and run: "run_actions n (ADisconnect h # rest) s = Some (r, s')"
    let ?s1 = "disconnect s h"
    have b: "wf_state ?s1 \<and> ext s ?s1"
      using w acts disconnect_step [of s h] by simp
    have c1: "calm ?s1"
      using c by (rule calm_disconnect)
    from acts b have a1: "\<forall>a \<in> set rest. wf_action ?s1 a"
      by (auto intro: wf_action_ext)
    from run have "run_actions n rest ?s1 = Some (r, s')" by (simp add: run_actions.simps)
    with 11 b c1 a1 nt show "r = Normal \<and> calm s'" by simp
  qed
next
  case (12 n e rest s)
  show ?case
  proof (intro allI impI)
    fix r s'
    assume "\<forall>e'. AThrow e' \<notin> set (AThrow e # rest)"
    then have False by auto
    then show "r = Normal \<and> calm s'" ..
  qed
qed

section \<open>A cascade that never ends\<close>

text \<open>
  A callback that sets the cell that notifies it to a new value each time starts a pass
  inside each pass: no depth is enough, and \<open>emit\<close> returns nothing. In JavaScript the
  call stack overflows, and the error cuts every one of the passes short.
\<close>

lemma runaway_step:
  assumes "fns s 0 = Some (External bump)" and "listeners (cells s 0) = [0, 1]"
    and "cell_value (cells s 0) = VNum m"
  shows "emit n s 0 = None"
  using assms
proof (induction n arbitrary: s m)
  case 0
  show ?case by (simp add: emit.simps)
next
  case (Suc n)
  let ?s1 = "s\<lparr>passes := Suc (passes s)\<rparr>"
  let ?s2 = "record_event ?s1 (Notified (passes s) 0 0 (VNum m))"
  let ?s3 = "set_value ?s2 0 (VNum (m + 1))"
  have "emit n ?s3 0 = None"
    using Suc.prems by (intro Suc.IH [of _ "m + 1"]) simp_all
  then have "update n ?s2 0 (VNum (m + 1)) = None"
    using Suc.prems by (simp add: update.simps)
  then have "run_actions n (bump (VNum m)) ?s2 = None"
    by (simp add: bump_def run_actions.simps)
  then have "call n ?s2 0 (VNum m) = None"
    using Suc.prems by (simp add: call.simps)
  then show ?case
    using Suc.prems by (simp add: emit.simps emit_loop.simps snapshot_def)
qed

lemma runaway_never_returns:
  "wf_state runaway_state \<and> calm runaway_state \<and> emit n runaway_state 0 = None"
proof -
  have w: "wf_state runaway_state"
    by (auto simp: runaway_state_def bump_def wf_state_def wf_fns_def wf_listeners_def wf_hooks_def
        hooks_def is_external_def prims Let_def split: if_splits val.splits)
  have c: "calm runaway_state"
    by (auto simp: runaway_state_def bump_def calm_def prims Let_def split: if_splits val.splits)
  have "emit n runaway_state 0 = None"
    by (rule runaway_step [of _ 0]) (simp_all add: runaway_state_def prims Let_def)
  with w c show ?thesis by simp
qed

section \<open>Claims\<close>




text \<open>
  C2. Setting an atom to a value that is strictly equal to the one it holds returns
  normally and leaves the whole state as it was: the stored value, the listeners, and the
  record of calls, so no callback was called. The comparison is by identity: two objects
  are equal exactly when they are the same reference, whatever their fields.
\<close>

theorem setState_same_value_noop:
  assumes "strict_eq (snapshot s a) v"
  shows "setState n s a v = Some (Normal, s) \<and>
         (strict_eq (VObj i fs) (VObj j gs) \<longleftrightarrow> i = j)"
  using assms by (simp add: setState_def update.simps snapshot_def)

theorem setState_same_value_noop_witness:
  "strict_eq (snapshot switch_on 0) (VStr ''on'') \<and>
   setState 0 switch_on 0 (VStr ''on'') = Some (Normal, switch_on) \<and>
   (strict_eq (VObj 1 [(''x'', VNum 0)]) (VObj 2 [(''x'', VNum 0)]) \<longleftrightarrow> (1::nat) = 2)"
proof -
  have h: "strict_eq (snapshot switch_on 0) (VStr ''on'')"
    by (simp add: switch_on_def prims)
  show ?thesis
    using h setState_same_value_noop [OF h, of 0 1 "[(''x'', VNum 0)]" 2 "[(''x'', VNum 0)]"]
    by simp
qed

text \<open>
  C3. In a state of the library, for a selector \<open>this\<close> and a cell \<open>dep\<close>: the first read
  of \<open>dep\<close> (\<open>dep\<close> is not registered) appends one new arrow function of the selector to the
  listeners of \<open>dep\<close>, registers \<open>dep\<close> and returns its value; a read of a registered \<open>dep\<close>
  returns its value and changes nothing. So one run of a generator, however often it
  reads \<open>dep\<close>, adds one listener to \<open>dep\<close> when \<open>dep\<close> is read and was not registered, and
  none otherwise; and after any cascade of updates, with any number of recomputations,
  at most one listener of \<open>dep\<close> is an arrow function of the selector.
\<close>

theorem selector_subscribes_once:
  assumes "wf_state s" and "this < nextCell s"
  shows "(dep \<notin> registeredDeps (cells s this) \<longrightarrow>
            listeners (cells (snd (addDep s this dep)) dep) = listeners (cells s dep) @ [nextFn s] \<and>
            nextFn s \<notin> set (listeners (cells s dep)) \<and>
            fns (snd (addDep s this dep)) (nextFn s) = Some (UpdateSelector this) \<and>
            dep \<in> registeredDeps (cells (snd (addDep s this dep)) this) \<and>
            fst (addDep s this dep) = snapshot s dep) \<and>
         (dep \<in> registeredDeps (cells s this) \<longrightarrow> addDep s this dep = (snapshot s dep, s)) \<and>
         (\<forall>g. length (listeners (cells (snd (run_gen g this s)) dep)) =
                length (listeners (cells s dep)) +
                  (if dep \<in> reads g (snapshot s) \<and> dep \<notin> registeredDeps (cells s this)
                   then 1 else 0)) \<and>
         (\<forall>n a v r s'. update n s a v = Some (r, s') \<longrightarrow> length (hooks s' this dep) \<le> 1)"
proof -
  have a: "dep \<notin> registeredDeps (cells s this) \<longrightarrow>
            listeners (cells (snd (addDep s this dep)) dep) = listeners (cells s dep) @ [nextFn s] \<and>
            nextFn s \<notin> set (listeners (cells s dep)) \<and>
            fns (snd (addDep s this dep)) (nextFn s) = Some (UpdateSelector this) \<and>
            dep \<in> registeredDeps (cells (snd (addDep s this dep)) this) \<and>
            fst (addDep s this dep) = snapshot s dep"
    using wf_fresh [OF assms(1), of dep]
    by (simp add: addDep_listeners [OF assms(1)] addDep_registeredDeps addDep_fields(1))
  have b: "dep \<in> registeredDeps (cells s this) \<longrightarrow> addDep s this dep = (snapshot s dep, s)"
    by (simp add: addDep_registered)
  have c: "\<forall>g. length (listeners (cells (snd (run_gen g this s)) dep)) =
                length (listeners (cells s dep)) +
                  (if dep \<in> reads g (snapshot s) \<and> dep \<notin> registeredDeps (cells s this)
                   then 1 else 0)"
    using run_gen_listeners [OF assms] by blast
  have d: "\<forall>n a v r s'. update n s a v = Some (r, s') \<longrightarrow> length (hooks s' this dep) \<le> 1"
    using wf_lemma(1) assms(1) wf_hooks_le by blast
  from a b c d show ?thesis by blast
qed

theorem selector_subscribes_once_witness:
  "wf_state two_atoms_state \<and> 2 < nextCell two_atoms_state \<and>
   1 \<notin> registeredDeps (cells two_atoms_state 2) \<and>
   listeners (cells two_atoms_state 1) = [] \<and>
   listeners (cells (snd (addDep two_atoms_state 2 1)) 1) = [1] \<and>
   fst (addDep two_atoms_state 2 1) = VNum 7 \<and>
   length (listeners (cells (snd (run_gen (twice_gen 1) 2 two_atoms_state)) 1)) = 1 \<and>
   0 \<in> registeredDeps (cells two_atoms_state 2) \<and>
   listeners (cells two_atoms_state 0) = [0] \<and>
   addDep two_atoms_state 2 0 = (VNum 5, two_atoms_state) \<and>
   length (listeners (cells (snd (run_gen (twice_gen 0) 2 two_atoms_state)) 0)) = 1 \<and>
   update (Suc (Suc 0)) two_atoms_state 0 (VNum 8)
     = Some (Normal, snd (the (update (Suc (Suc 0)) two_atoms_state 0 (VNum 8)))) \<and>
   length (hooks (snd (the (update (Suc (Suc 0)) two_atoms_state 0 (VNum 8)))) 2 0) \<le> 1"
proof -
  have w1: "wf_state (snd (atom init (VNum 5)))"
    using new_cell_step [OF wf_init] by (simp add: atom_def)
  have w2: "wf_state (snd (atom (snd (atom init (VNum 5))) (VNum 7)))"
    using new_cell_step [OF w1] by (simp add: atom_def)
  have w: "wf_state two_atoms_state"
    unfolding two_atoms_state_def
    using selector_step [OF w2, of "succ_gen 0"] by (metis prod.collapse)
  have facts: "2 < nextCell two_atoms_state" "1 \<notin> registeredDeps (cells two_atoms_state 2)"
    "0 \<in> registeredDeps (cells two_atoms_state 2)" "nextFn two_atoms_state = 1"
    "listeners (cells two_atoms_state 1) = []" "listeners (cells two_atoms_state 0) = [0]"
    "snapshot two_atoms_state 1 = VNum 7" "snapshot two_atoms_state 0 = VNum 5"
    by (simp_all add: two_atoms_state_def succ_gen_def prims Let_def)
  have r: "1 \<in> reads (twice_gen 1) (snapshot two_atoms_state)"
    "0 \<in> reads (twice_gen 0) (snapshot two_atoms_state)"
    by (simp_all add: twice_gen_def)
  have u: "update (Suc (Suc 0)) two_atoms_state 0 (VNum 8)
     = Some (Normal, snd (the (update (Suc (Suc 0)) two_atoms_state 0 (VNum 8))))"
    by (simp add: two_atoms_state_def succ_gen_def eval_simps)
  note t1 = selector_subscribes_once [OF w facts(1), of 1]
  note t0 = selector_subscribes_once [OF w facts(1), of 0]
  from t1 facts have a: "listeners (cells (snd (addDep two_atoms_state 2 1)) 1) = [1]"
    "fst (addDep two_atoms_state 2 1) = VNum 7"
    by simp_all
  from t1 facts r have b: "length (listeners (cells (snd (run_gen (twice_gen 1) 2 two_atoms_state)) 1)) = 1"
    by simp
  from t0 facts have c: "addDep two_atoms_state 2 0 = (VNum 5, two_atoms_state)"
    by simp
  from t0 facts r have d: "length (listeners (cells (snd (run_gen (twice_gen 0) 2 two_atoms_state)) 0)) = 1"
    by simp
  from t0 u have e: "length (hooks (snd (the (update (Suc (Suc 0)) two_atoms_state 0 (VNum 8)))) 2 0) \<le> 1"
    by blast
  from w facts a b c d u e show ?thesis by blast
qed

text \<open>
  C4. The program \<open>age = atom(20)\<close>, \<open>name = atom("John")\<close>,
  \<open>info = selector(({get}) => get(name) + " is " + get(age))\<close>: the selector holds
  \<open>"John is 20"\<close> once constructed, \<open>"Sarah is 20"\<close> when \<open>name.setState("Sarah")\<close> has
  returned, and \<open>"Sarah is 30"\<close> when \<open>age.setState(30)\<close> has returned. Both calls return
  normally as soon as two nested notifications are allowed.
\<close>

theorem info_example:
  "case atom init (VNum 20) of (age, s1) \<Rightarrow>
   case atom s1 (VStr ''John'') of (name, s2) \<Rightarrow>
   case selector s2 (info_gen name age) of (r, s3) \<Rightarrow>
     r = Inr 2 \<and> snapshot s3 2 = VStr ''John is 20'' \<and>
     (case setState (Suc (Suc n)) s3 name (VStr ''Sarah'') of
        Some (Normal, s4) \<Rightarrow> snapshot s4 2 = VStr ''Sarah is 20'' \<and>
          (case setState (Suc (Suc n)) s4 age (VNum 30) of
             Some (Normal, s5) \<Rightarrow> snapshot s5 2 = VStr ''Sarah is 30''
           | _ \<Rightarrow> False)
      | _ \<Rightarrow> False)"
  by (simp add: eval_simps info_gen_def digit_chars)

text \<open>
  C5. The constructor of a selector runs the generator once, and returns the selector
  with the value of the generator as its value: no \<open>setState\<close> is needed. The events of
  the construction are the one run of the generator: no pass of \<open>emit\<close> is started and no
  callback is called (the value is assigned, not passed to \<open>update\<close>), and the values of the
  cells that existed are unchanged.
\<close>

theorem selector_initial_value:
  assumes "gen_value g (snapshot (snd (new_cell s VUndef (Some g)))) = Inr v"
  shows "fst (selector s g) = Inr (nextCell s) \<and>
         snapshot (snd (selector s g)) (nextCell s) = v \<and>
         new_events s (snd (selector s g)) = [Generated (nextCell s)] \<and>
         passes (snd (selector s g)) = passes s \<and>
         (\<forall>c. c \<noteq> nextCell s \<longrightarrow> snapshot (snd (selector s g)) c = snapshot s c)"
proof -
  let ?s1 = "snd (new_cell s VUndef (Some g))"
  let ?s2 = "record_event ?s1 (Generated (nextCell s))"
  have snap: "snapshot ?s2 = snapshot ?s1"
    by (simp add: snapshot_def fun_eq_iff)
  obtain x s3 where run: "run_gen g (nextCell s) ?s2 = (x, s3)"
    by (cases "run_gen g (nextCell s) ?s2")
  have x: "x = Inr v"
    using run_gen_result [of g "nextCell s" ?s2] run assms snap by simp
  have s3: "snapshot s3 = snapshot ?s1" "trace s3 = trace s @ [Generated (nextCell s)]"
    "passes s3 = passes s"
    using run_gen_snapshot [of g "nextCell s" ?s2] run_gen_trace [of g "nextCell s" ?s2]
      run_gen_passes [of g "nextCell s" ?s2] run snap by simp_all
  have sel: "selector s g = (Inr (nextCell s), set_value s3 (nextCell s) v)"
    using run x by (simp add: selector_def split_beta)
  have "snapshot (set_value s3 (nextCell s) v) c = snapshot s c" if "c \<noteq> nextCell s" for c
    using that s3(1) by (simp add: snapshot_def fun_eq_iff)
  then show ?thesis
    using s3 by (simp add: sel new_events_def snapshot_def)
qed

theorem selector_initial_value_witness:
  "gen_value (succ_gen 0) (snapshot (snd (new_cell five_state VUndef (Some (succ_gen 0))))) = Inr (VNum 6) \<and>
   snapshot five_state 0 = VNum 5 \<and>
   fst (selector five_state (succ_gen 0)) = Inr 1 \<and>
   snapshot (snd (selector five_state (succ_gen 0))) 1 = VNum 6 \<and>
   new_events five_state (snd (selector five_state (succ_gen 0))) = [Generated 1] \<and>
   snapshot (snd (selector five_state (succ_gen 0))) 0 = VNum 5"
proof -
  have a: "gen_value (succ_gen 0) (snapshot (snd (new_cell five_state VUndef (Some (succ_gen 0)))))
      = Inr (VNum 6)"
    by (simp add: succ_gen_def five_state_def prims)
  have b: "snapshot five_state 0 = VNum 5" "nextCell five_state = 1"
    by (simp_all add: five_state_def prims)
  from selector_initial_value [OF a] a b show ?thesis by simp
qed




text \<open>
  C7, as the code has it. A pass of \<open>emit\<close> that ends, normally or with an exception,
  calls the listeners that the cell had when the pass began, in their order and each at
  most once: whatever the callbacks do (set the notifying cell, subscribe or disconnect
  callbacks, start nested passes), the calls of the pass are a prefix of that list
  without repetition, and when the pass ends normally they are exactly that list. The
  pass adds no exception of its own: it ends normally when no callback and no generator
  throws.
\<close>

theorem emit_calls_the_snapshot:
  assumes "wf_state s" and "emit n s this = Some (r, s')"
  shows "prefix (invoked_in (passes s) (new_events s s')) (listeners (cells s this)) \<and>
         distinct (invoked_in (passes s) (new_events s s')) \<and>
         (r = Normal \<longrightarrow> invoked_in (passes s) (new_events s s') = listeners (cells s this)) \<and>
         (calm s \<longrightarrow> r = Normal)"
  using emit_pass [OF assms(2)] wf_distinct [OF assms(1), of this] calm_lemma(2) assms
  by (auto intro: prefix_distinct)

theorem emit_calls_the_snapshot_witness:
  "wf_state reentrant_state \<and> calm reentrant_state \<and>
   emit (Suc (Suc 0)) reentrant_state 0 = Some (Normal, snd (the (emit (Suc (Suc 0)) reentrant_state 0))) \<and>
   listeners (cells reentrant_state 0) = [3, 0, 1] \<and>
   listeners (cells (snd (the (emit (Suc (Suc 0)) reentrant_state 0))) 0) = [3, 1, 2] \<and>
   snapshot (snd (the (emit (Suc (Suc 0)) reentrant_state 0))) 0 = VNum 2 \<and>
   invoked_in (passes reentrant_state)
     (new_events reentrant_state (snd (the (emit (Suc (Suc 0)) reentrant_state 0)))) = [3, 0, 1]"
proof -
  have e: "emit (Suc (Suc 0)) reentrant_state 0
      = Some (Normal, snd (the (emit (Suc (Suc 0)) reentrant_state 0)))"
    using reentrant_emit by simp
  have v: "snapshot (snd (the (emit (Suc (Suc 0)) reentrant_state 0))) 0 = VNum 2"
    by (simp add: reentrant_state_def eval_simps)
  have c: "calm reentrant_state"
    by (auto simp: reentrant_state_def calm_def prims Let_def split: if_splits)
  show ?thesis
    using emit_calls_the_snapshot [OF wf_reentrant_state e] reentrant_emit wf_reentrant_state v c
    by simp
qed

text \<open>
  C7 as stated fails when a callback throws: the pass stops there and skips the
  listeners that follow. On the atom of \<open>thrower_state\<close> the pass calls the first of two
  listeners only. On the atom of \<open>picky_state\<close> the skipping is caused by a re-entrant
  \<open>setState\<close>: callback 0 sets the atom to 2, the nested pass gives 2 to callback 1, which
  throws, and the exception ends the nested pass and the first pass, which has called
  callback 0 only; callbacks 1 and 2 are skipped by the first pass.
\<close>

theorem emit_calls_the_snapshot_counterexample:
  "wf_state thrower_state \<and>
   listeners (cells thrower_state 0) = [0, 1] \<and>
   emit (Suc 0) thrower_state 0
     = Some (Thrown (VStr ''boom''), snd (the (emit (Suc 0) thrower_state 0))) \<and>
   invoked_in (passes thrower_state)
     (new_events thrower_state (snd (the (emit (Suc 0) thrower_state 0)))) = [0] \<and>
   wf_state picky_state \<and>
   listeners (cells picky_state 0) = [0, 1, 2] \<and>
   emit (Suc (Suc 0)) picky_state 0
     = Some (Thrown (VStr ''boom''), snd (the (emit (Suc (Suc 0)) picky_state 0))) \<and>
   invoked_in (passes picky_state)
     (new_events picky_state (snd (the (emit (Suc (Suc 0)) picky_state 0)))) = [0] \<and>
   new_events picky_state (snd (the (emit (Suc (Suc 0)) picky_state 0)))
     = [Notified 0 0 0 (VNum 1), Notified 1 0 0 (VNum 2), Notified 1 0 1 (VNum 2)]"
proof -
  have w1: "wf_state thrower_state"
    by (auto simp: thrower_state_def wf_state_def wf_fns_def wf_listeners_def wf_hooks_def
        hooks_def is_external_def prims Let_def split: if_splits)
  have w2: "wf_state picky_state"
    by (auto simp: picky_state_def wf_state_def wf_fns_def wf_listeners_def wf_hooks_def
        hooks_def is_external_def prims Let_def split: if_splits)
  have t: "listeners (cells thrower_state 0) = [0, 1]"
    "emit (Suc 0) thrower_state 0
       = Some (Thrown (VStr ''boom''), snd (the (emit (Suc 0) thrower_state 0)))"
    "invoked_in (passes thrower_state)
       (new_events thrower_state (snd (the (emit (Suc 0) thrower_state 0)))) = [0]"
    by (simp_all add: thrower_state_def eval_simps)
  have p: "listeners (cells picky_state 0) = [0, 1, 2]"
    "emit (Suc (Suc 0)) picky_state 0
       = Some (Thrown (VStr ''boom''), snd (the (emit (Suc (Suc 0)) picky_state 0)))"
    "new_events picky_state (snd (the (emit (Suc (Suc 0)) picky_state 0)))
       = [Notified 0 0 0 (VNum 1), Notified 1 0 0 (VNum 2), Notified 1 0 1 (VNum 2)]"
    by (simp_all add: picky_state_def eval_simps)
  have q: "invoked_in (passes picky_state)
     (new_events picky_state (snd (the (emit (Suc (Suc 0)) picky_state 0)))) = [0]"
    by (simp only: p(3)) (simp add: picky_state_def prims Let_def)
  from w1 w2 t p q show ?thesis by blast
qed

text \<open>
  C8, as the code has it. After \<open>subscribe(cb)\<close> and one call of the \<open>disconnect\<close> it
  returned, the listeners of the cell are the listeners it had before \<open>subscribe\<close> without
  \<open>cb\<close>, in the same order: the state is what it was when \<open>cb\<close> was not subscribed
  before, and the cell has one listener fewer when it was. The other cells are untouched,
  an update of the cell no longer calls \<open>cb\<close> in its pass, and a second call of
  \<open>disconnect\<close> changes nothing (\<open>disconnect\<close> has no failing case).
\<close>

theorem disconnect_after_subscribe:
  "listeners (cells (disconnect (snd (subscribe s c cb)) (fst (subscribe s c cb))) c)
     = removeAll cb (listeners (cells s c)) \<and>
   (cb \<notin> set (listeners (cells s c)) \<longrightarrow>
      disconnect (snd (subscribe s c cb)) (fst (subscribe s c cb)) = s) \<and>
   (wf_state s \<longrightarrow> cb \<in> set (listeners (cells s c)) \<longrightarrow>
      length (listeners (cells (disconnect (snd (subscribe s c cb)) (fst (subscribe s c cb))) c)) + 1
        = length (listeners (cells s c))) \<and>
   (\<forall>c'. c' \<noteq> c \<longrightarrow>
      cells (disconnect (snd (subscribe s c cb)) (fst (subscribe s c cb))) c' = cells s c') \<and>
   (\<forall>n v r s'.
      update n (disconnect (snd (subscribe s c cb)) (fst (subscribe s c cb))) c v = Some (r, s') \<longrightarrow>
      cb \<notin> set (invoked_in (passes s)
               (new_events (disconnect (snd (subscribe s c cb)) (fst (subscribe s c cb))) s'))) \<and>
   disconnect (disconnect (snd (subscribe s c cb)) (fst (subscribe s c cb)))
       (fst (subscribe s c cb))
     = disconnect (snd (subscribe s c cb)) (fst (subscribe s c cb))"
proof -
  let ?s2 = "disconnect (snd (subscribe s c cb)) (fst (subscribe s c cb))"
  have eq: "?s2 = set_listeners s c (set_delete (listeners (cells s c)) cb)"
    by (rule subscribe_then_disconnect)
  have a: "listeners (cells ?s2 c) = removeAll cb (listeners (cells s c))"
    by (simp only: eq) (simp add: set_delete_def)
  have b: "cb \<notin> set (listeners (cells s c)) \<longrightarrow> ?s2 = s"
    by (simp only: eq) (simp add: set_delete_absent set_listeners_same)
  have b': "wf_state s \<longrightarrow> cb \<in> set (listeners (cells s c)) \<longrightarrow>
      length (listeners (cells ?s2 c)) + 1 = length (listeners (cells s c))"
    using wf_distinct [of s c] by (simp only: a) (simp add: length_removeAll_distinct)
  have c: "\<forall>c'. c' \<noteq> c \<longrightarrow> cells ?s2 c' = cells s c'"
    by (simp only: eq) simp
  have "cb \<notin> set (listeners (cells ?s2 c))"
    by (simp only: a) simp
  then have d: "\<forall>n v r s'. update n ?s2 c v = Some (r, s') \<longrightarrow>
      cb \<notin> set (invoked_in (passes s) (new_events ?s2 s'))"
    using not_invoked [of cb ?s2 c] by simp
  have e: "disconnect ?s2 (fst (subscribe s c cb)) = ?s2"
    by (rule disconnect_twice)
  from a b b' c d e show ?thesis by blast
qed

theorem disconnect_after_subscribe_witness:
  "1 \<notin> set (listeners (cells other_state 0)) \<and>
   listeners (cells other_state 0) = [0] \<and>
   listeners (cells (snd (subscribe other_state 0 1)) 0) = [0, 1] \<and>
   disconnect (snd (subscribe other_state 0 1)) (fst (subscribe other_state 0 1)) = other_state \<and>
   update (Suc 0) (disconnect (snd (subscribe other_state 0 1)) (fst (subscribe other_state 0 1)))
       0 (VNum 1)
     = Some (Normal, snd (the (update (Suc 0) other_state 0 (VNum 1)))) \<and>
   1 \<notin> set (invoked_in (passes other_state)
     (new_events (disconnect (snd (subscribe other_state 0 1)) (fst (subscribe other_state 0 1)))
        (snd (the (update (Suc 0) other_state 0 (VNum 1)))))) \<and>
   wf_state subscribed_state \<and>
   0 \<in> set (listeners (cells subscribed_state 0)) \<and>
   length (listeners (cells
       (disconnect (snd (subscribe subscribed_state 0 0)) (fst (subscribe subscribed_state 0 0))) 0)) + 1
     = length (listeners (cells subscribed_state 0))"
proof -
  let ?s2 = "disconnect (snd (subscribe other_state 0 1)) (fst (subscribe other_state 0 1))"
  have a: "listeners (cells other_state 0) = [0]"
    by (simp add: other_state_def eval_simps)
  have b: "listeners (cells (snd (subscribe other_state 0 1)) 0) = [0, 1]"
    using a by (simp add: set_add_def)
  have c: "update (Suc 0) other_state 0 (VNum 1)
      = Some (Normal, snd (the (update (Suc 0) other_state 0 (VNum 1))))"
    by (simp add: other_state_def eval_simps)
  have n: "1 \<notin> set (listeners (cells other_state 0))"
    using a by simp
  note t = disconnect_after_subscribe [of other_state 0 1]
  from t n have d: "?s2 = other_state" by blast
  from c d have c': "update (Suc 0) ?s2 0 (VNum 1)
      = Some (Normal, snd (the (update (Suc 0) other_state 0 (VNum 1))))"
    by (simp only:)
  from t c' have i: "1 \<notin> set (invoked_in (passes other_state)
     (new_events ?s2 (snd (the (update (Suc 0) other_state 0 (VNum 1))))))"
    by blast
  have w: "wf_state subscribed_state"
    by (auto simp: subscribed_state_def wf_state_def wf_fns_def wf_listeners_def wf_hooks_def
        hooks_def is_external_def prims Let_def split: if_splits)
  have m: "0 \<in> set (listeners (cells subscribed_state 0))"
    by (simp add: subscribed_state_def eval_simps)
  from disconnect_after_subscribe [of subscribed_state 0 0] w m
  have l: "length (listeners (cells
       (disconnect (snd (subscribe subscribed_state 0 0)) (fst (subscribe subscribed_state 0 0))) 0)) + 1
     = length (listeners (cells subscribed_state 0))"
    by blast
  from n a b d c' i w m l show ?thesis by blast
qed

text \<open>
  C8 as stated fails when \<open>cb\<close> was subscribed already: \<open>subscribe(cb)\<close> adds nothing to the
  set, and the \<open>disconnect\<close> it returns removes \<open>cb\<close>, so the cell ends with one listener
  fewer than it had before \<open>subscribe\<close>.
\<close>

theorem disconnect_count_counterexample:
  "length (listeners (cells subscribed_state 0)) = 1 \<and>
   length (listeners (cells
     (disconnect (snd (subscribe subscribed_state 0 0)) (fst (subscribe subscribed_state 0 0))) 0)) = 0"
  by (simp add: subscribed_state_def eval_simps)

text \<open>
  C9. Every operation of the public interface (creating an atom, a selector or a
  callback, \<open>setState\<close> with the whole cascade it starts, \<open>subscribe\<close>, \<open>disconnect\<close>) takes
  a state of the library to a state of the library in which, for every selector that
  existed, the registered dependencies include those it had, and every arrow function
  of a selector that listened to a cell still listens to it.
\<close>

theorem dependencies_only_grow:
  assumes "wf_state s" and "wf_op s op" and "step n s op = Some (r, s')"
  shows "wf_state s' \<and>
         (\<forall>this < nextCell s. registeredDeps (cells s this) \<subseteq> registeredDeps (cells s' this)) \<and>
         (\<forall>this. \<forall>dep < nextCell s. set (hooks s this dep) \<subseteq> set (hooks s' this dep))"
  using step_wf_ext [OF assms] by (simp add: ext_def)

theorem dependencies_only_grow_witness:
  "wf_state cond_state \<and> wf_op cond_state (SetState 0 (VNum 1)) \<and>
   step (Suc (Suc 0)) cond_state (SetState 0 (VNum 1))
     = Some (Normal, snd (the (step (Suc (Suc 0)) cond_state (SetState 0 (VNum 1))))) \<and>
   nextCell cond_state = 3 \<and>
   snapshot cond_state 2 = VNum 7 \<and>
   snapshot (snd (the (step (Suc (Suc 0)) cond_state (SetState 0 (VNum 1))))) 2 = VStr ''none'' \<and>
   registeredDeps (cells cond_state 2) = {0, 1} \<and>
   hooks cond_state 2 1 = [1] \<and>
   wf_state (snd (the (step (Suc (Suc 0)) cond_state (SetState 0 (VNum 1))))) \<and>
   registeredDeps (cells cond_state 2)
     \<subseteq> registeredDeps (cells (snd (the (step (Suc (Suc 0)) cond_state (SetState 0 (VNum 1))))) 2) \<and>
   set (hooks cond_state 2 1)
     \<subseteq> set (hooks (snd (the (step (Suc (Suc 0)) cond_state (SetState 0 (VNum 1))))) 2 1)"
proof -
  let ?s' = "snd (the (step (Suc (Suc 0)) cond_state (SetState 0 (VNum 1))))"
  have w1: "wf_state (snd (atom init (VNum 0)))"
    using new_cell_step [OF wf_init] by (simp add: atom_def)
  have w2: "wf_state (snd (atom (snd (atom init (VNum 0))) (VNum 7)))"
    using new_cell_step [OF w1] by (simp add: atom_def)
  have w: "wf_state cond_state"
    unfolding cond_state_def
    using selector_step [OF w2, of "cond_gen 0 1"] by (metis prod.collapse)
  have o: "wf_op cond_state (SetState 0 (VNum 1))" by simp
  have st: "step (Suc (Suc 0)) cond_state (SetState 0 (VNum 1)) = Some (Normal, ?s')"
    by (simp add: cond_state_def cond_gen_def eval_simps)
  have facts: "nextCell cond_state = 3" "snapshot cond_state 2 = VNum 7"
    "registeredDeps (cells cond_state 2) = {0, 1}" "hooks cond_state 2 1 = [1]"
    by (auto simp add: cond_state_def cond_gen_def hooks_def eval_simps)
  have v: "snapshot ?s' 2 = VStr ''none''"
    by (simp add: cond_state_def cond_gen_def eval_simps)
  note t = dependencies_only_grow [OF w o st]
  from t have a: "wf_state ?s'" by blast
  from t facts(1) have b: "registeredDeps (cells cond_state 2) \<subseteq> registeredDeps (cells ?s' 2)"
    by simp
  from t facts(1) have c: "set (hooks cond_state 2 1) \<subseteq> set (hooks ?s' 2 1)"
    by simp
  from w o st facts v a b c show ?thesis by blast
qed

text \<open>
  C10, as the code has it. Subscribing a callback a second time leaves the state as the
  first \<open>subscribe\<close> left it: the callback is in the listeners once; the pass of an update
  of the cell never calls it twice, and calls it once when the pass ends normally; and
  the \<open>disconnect\<close> of either \<open>subscribe\<close> removes it from the listeners altogether.
\<close>

theorem subscribe_twice:
  assumes "wf_state s"
  shows "snd (subscribe (snd (subscribe s c cb)) c cb) = snd (subscribe s c cb) \<and>
    count_list (listeners (cells (snd (subscribe (snd (subscribe s c cb)) c cb)) c)) cb = 1 \<and>
    (\<forall>n v r s'. \<not> strict_eq (snapshot s c) v \<longrightarrow>
       update n (snd (subscribe (snd (subscribe s c cb)) c cb)) c v = Some (r, s') \<longrightarrow>
       count_list (invoked_in (passes s)
         (new_events (snd (subscribe (snd (subscribe s c cb)) c cb)) s')) cb \<le> 1 \<and>
       (r = Normal \<longrightarrow>
        count_list (invoked_in (passes s)
          (new_events (snd (subscribe (snd (subscribe s c cb)) c cb)) s')) cb = 1)) \<and>
    cb \<notin> set (listeners (cells
       (disconnect (snd (subscribe (snd (subscribe s c cb)) c cb)) (fst (subscribe s c cb))) c)) \<and>
    cb \<notin> set (listeners (cells
       (disconnect (snd (subscribe (snd (subscribe s c cb)) c cb))
          (fst (subscribe (snd (subscribe s c cb)) c cb))) c))"
proof -
  let ?s1 = "snd (subscribe s c cb)"
  let ?s2 = "snd (subscribe ?s1 c cb)"
  have a: "?s2 = ?s1" by (rule subscribe_again)
  have dl: "distinct (listeners (cells ?s1 c))"
    using wf_distinct [OF assms, of c] by (simp add: distinct_set_add)
  have b: "count_list (listeners (cells ?s1 c)) cb = 1"
    using wf_distinct [OF assms, of c] by (simp add: count_list_set_add)
  have c: "count_list (invoked_in (passes s) (new_events ?s1 s')) cb \<le> 1 \<and>
       (r = Normal \<longrightarrow> count_list (invoked_in (passes s) (new_events ?s1 s')) cb = 1)"
    if "\<not> strict_eq (snapshot s c) v" and "update n ?s1 c v = Some (r, s')" for n v r s'
  proof -
    have "\<not> strict_eq (snapshot ?s1 c) v"
      using that(1) by (simp add: snapshot_def)
    from update_pass [OF this that(2)]
    have p: "prefix (invoked_in (passes s) (new_events ?s1 s')) (listeners (cells ?s1 c))"
      and e: "r = Normal \<longrightarrow> invoked_in (passes s) (new_events ?s1 s') = listeners (cells ?s1 c)"
      by simp_all
    from p dl have "distinct (invoked_in (passes s) (new_events ?s1 s'))"
      by (rule prefix_distinct)
    then have "count_list (invoked_in (passes s) (new_events ?s1 s')) cb \<le> 1"
      by (rule count_list_distinct)
    with e b show ?thesis by simp
  qed
  have d: "cb \<notin> set (listeners (cells (disconnect ?s1 (fst (subscribe s c cb))) c))"
    "cb \<notin> set (listeners (cells (disconnect ?s1 (fst (subscribe ?s1 c cb))) c))"
    by simp_all
  from b c d show ?thesis
    by (simp only: a) blast
qed

theorem subscribe_twice_witness:
  "wf_state other_state \<and>
   listeners (cells (snd (subscribe (snd (subscribe other_state 0 1)) 0 1)) 0) = [0, 1] \<and>
   \<not> strict_eq (snapshot other_state 0) (VNum 1) \<and>
   update (Suc 0) (snd (subscribe (snd (subscribe other_state 0 1)) 0 1)) 0 (VNum 1)
     = Some (Normal,
         snd (the (update (Suc 0) (snd (subscribe (snd (subscribe other_state 0 1)) 0 1)) 0 (VNum 1)))) \<and>
   count_list (invoked_in (passes other_state)
     (new_events (snd (subscribe (snd (subscribe other_state 0 1)) 0 1))
       (snd (the (update (Suc 0) (snd (subscribe (snd (subscribe other_state 0 1)) 0 1)) 0 (VNum 1))))))
     1 = 1 \<and>
   listeners (cells (disconnect (snd (subscribe (snd (subscribe other_state 0 1)) 0 1))
       (fst (subscribe other_state 0 1))) 0) = [0]"
proof -
  let ?s2 = "snd (subscribe (snd (subscribe other_state 0 1)) 0 1)"
  have w: "wf_state other_state"
    by (auto simp: other_state_def wf_state_def wf_fns_def wf_listeners_def wf_hooks_def hooks_def
        is_external_def prims Let_def split: if_splits)
  have a: "listeners (cells ?s2 0) = [0, 1]"
    by (simp add: other_state_def eval_simps)
  have b: "\<not> strict_eq (snapshot other_state 0) (VNum 1)"
    by (simp add: other_state_def eval_simps)
  have c: "update (Suc 0) ?s2 0 (VNum 1) = Some (Normal, snd (the (update (Suc 0) ?s2 0 (VNum 1))))"
    by (simp add: other_state_def eval_simps)
  have d: "listeners (cells (disconnect ?s2 (fst (subscribe other_state 0 1))) 0) = [0]"
    by (simp add: other_state_def eval_simps)
  from subscribe_twice [OF w, of 0 1] b c
  have e: "count_list (invoked_in (passes other_state)
     (new_events ?s2 (snd (the (update (Suc 0) ?s2 0 (VNum 1)))))) 1 = 1"
    by blast
  from w a b c d e show ?thesis by blast
qed

text \<open>
  C10 as stated fails for the number of calls. Callback 1 of \<open>thrower_state\<close> is
  subscribed a second time behind a listener that throws: the update throws and has not
  called it. Callback 0 of \<open>setter_state\<close> is subscribed a second time and sets the atom
  when it is called: the update calls it twice, once in its pass and once in the pass of
  the callback's own \<open>setState\<close>.
\<close>

theorem subscribe_twice_counterexample:
  "snd (subscribe (snd (subscribe thrower_state 0 1)) 0 1) = snd (subscribe thrower_state 0 1) \<and>
   listeners (cells (snd (subscribe thrower_state 0 1)) 0) = [0, 1] \<and>
   \<not> strict_eq (snapshot (snd (subscribe thrower_state 0 1)) 0) (VNum 1) \<and>
   update (Suc 0) (snd (subscribe thrower_state 0 1)) 0 (VNum 1)
     = Some (Thrown (VStr ''boom''),
         snd (the (update (Suc 0) (snd (subscribe thrower_state 0 1)) 0 (VNum 1)))) \<and>
   new_events (snd (subscribe thrower_state 0 1))
       (snd (the (update (Suc 0) (snd (subscribe thrower_state 0 1)) 0 (VNum 1))))
     = [Notified 0 0 0 (VNum 1)] \<and>
   snd (subscribe (snd (subscribe setter_state 0 0)) 0 0) = snd (subscribe setter_state 0 0) \<and>
   listeners (cells (snd (subscribe setter_state 0 0)) 0) = [0] \<and>
   \<not> strict_eq (snapshot (snd (subscribe setter_state 0 0)) 0) (VNum 1) \<and>
   update (Suc (Suc 0)) (snd (subscribe setter_state 0 0)) 0 (VNum 1)
     = Some (Normal,
         snd (the (update (Suc (Suc 0)) (snd (subscribe setter_state 0 0)) 0 (VNum 1)))) \<and>
   new_events (snd (subscribe setter_state 0 0))
       (snd (the (update (Suc (Suc 0)) (snd (subscribe setter_state 0 0)) 0 (VNum 1))))
     = [Notified 0 0 0 (VNum 1), Notified 1 0 0 (VNum 2)]"
  by (simp add: thrower_state_def setter_state_def eval_simps)

end
